theory Spec2Isabelle
  imports Main "HOL-Library.Word" "HOL-Library.Sublist"
begin

section \<open>Text\<close>

text \<open>
  A JavaScript string is a sequence of 16-bit code units; \<open>charCodeAt\<close>,
  \<open>String.fromCharCode\<close>, \<open>split\<close> and a regular expression without the
  \<open>u\<close> flag all work on code units.
\<close>

type_synonym jstring = "16 word list"

definition str :: "string \<Rightarrow> jstring" where
  "str s = map (\<lambda>c. of_nat (of_char c)) s"

definition is_LineTerminator :: "16 word \<Rightarrow> bool" where
  "is_LineTerminator c \<longleftrightarrow> c = 0x0A \<or> c = 0x0D \<or> c = 0x2028 \<or> c = 0x2029"

text \<open>The class \<open>\s\<close> of a regular expression, which is also what \<open>parseInt\<close> skips.\<close>

definition is_WhiteSpace :: "16 word \<Rightarrow> bool" where
  "is_WhiteSpace c \<longleftrightarrow>
     c = 0x09 \<or> c = 0x0B \<or> c = 0x0C \<or> c = 0x20 \<or> c = 0xA0 \<or> c = 0x1680 \<or>
     (0x2000 \<le> c \<and> c \<le> 0x200A) \<or> c = 0x202F \<or> c = 0x205F \<or> c = 0x3000 \<or>
     c = 0xFEFF \<or> is_LineTerminator c"

datatype error = TypeError | SyntaxError | RangeError | CommandError | Unmodelled

section \<open>chunkString\<close>

text \<open>
  \<open>str.match(new RegExp(".{1," + length + "}", "g"))\<close>: every match, from left to
  right. A match starts at the first code unit that is not a line terminator (\<open>.\<close>
  matches no line terminator, and the search moves on where it fails) and takes as many
  such units as it can, up to \<open>length\<close>; the search resumes after it.
\<close>

fun take_upto :: "int \<Rightarrow> 'a list \<Rightarrow> 'a list" where
  "take_upto n [] = []"
| "take_upto n (x # xs) = (if n \<le> 0 then [] else x # take_upto (n - 1) xs)"

function regex_matches :: "int \<Rightarrow> jstring \<Rightarrow> jstring list" where
  "regex_matches n s =
     (case dropWhile is_LineTerminator s of
        [] \<Rightarrow> []
      | c # r \<Rightarrow>
          (let m = c # take_upto (n - 1) (takeWhile (\<lambda>x. \<not> is_LineTerminator x) r)
           in m # regex_matches n (drop (length m) (c # r))))"
  by pat_completeness auto
termination
proof (relation "measure (\<lambda>(n, s). length s)", goal_cases)
  case 1
  show ?case by simp
next
  case (2 n s c r m)
  have "length (dropWhile is_LineTerminator s) \<le> length s"
    by (rule length_dropWhile_le)
  with 2 show ?case by simp
qed

declare regex_matches.simps [simp del]

text \<open>
  \<open>match\<close> returns \<open>null\<close> (here \<open>None\<close>) when nothing matches. The length is
  a whole number; the pattern \<open>.{1,0}\<close> is rejected by the \<open>RegExp\<close> constructor,
  and with a negative length the braces are no quantifier, which is outside this model.
\<close>

definition chunkString :: "jstring \<Rightarrow> int \<Rightarrow> error + jstring list option" where
  "chunkString s n =
     (if n = 0 then Inl SyntaxError
      else if n < 0 then Inl Unmodelled
      else (case regex_matches n s of [] \<Rightarrow> Inr None | m # ms \<Rightarrow> Inr (Some (m # ms))))"

definition MAX_DATABASE_STRING_SIZE :: int where
  "MAX_DATABASE_STRING_SIZE = 32000"

section \<open>textToBinary and binaryToText\<close>

text \<open>\<open>Number.prototype.toString(2)\<close> on a non-negative integer.\<close>

function bin_digits :: "int \<Rightarrow> jstring" where
  "bin_digits n =
     (if n < 2 then [if n = 0 then 0x30 else 0x31]
      else bin_digits (n div 2) @ [if n mod 2 = 0 then 0x30 else 0x31])"
  by pat_completeness auto
termination
  by (relation "measure nat") auto

declare bin_digits.simps [simp del]

text \<open>\<open>Array.prototype.join\<close>.\<close>

fun join :: "jstring \<Rightarrow> jstring list \<Rightarrow> jstring" where
  "join sep [] = []"
| "join sep [x] = x"
| "join sep (x # y # ys) = x @ sep @ join sep (y # ys)"

definition textToBinary :: "jstring \<Rightarrow> jstring" where
  "textToBinary t = join [0x20] (map (\<lambda>char. bin_digits (uint char)) t)"

text \<open>\<open>binary.split(" ")\<close>: the empty string gives one empty piece.\<close>

fun split_space :: "jstring \<Rightarrow> jstring list" where
  "split_space [] = [[]]"
| "split_space (c # cs) =
     (if c = 0x20 then [] # split_space cs
      else (case split_space cs of t # ts \<Rightarrow> (c # t) # ts | [] \<Rightarrow> [[c]]))"

text \<open>
  The numbers \<open>parseInt\<close> can return: \<open>NaN\<close>, an infinity, or an integer that a
  double represents.
\<close>

datatype number = NaN | Infinite | Num int

function bit_length :: "int \<Rightarrow> nat" where
  "bit_length n = (if n \<le> 0 then 0 else Suc (bit_length (n div 2)))"
  by pat_completeness auto
termination
  by (relation "measure nat") auto

declare bit_length.simps [simp del]

text \<open>
  The double nearest to a non-negative integer (ties to even): integers of up to 53
  bits are exact, longer ones keep their 53 leading bits.
\<close>

definition to_double :: "int \<Rightarrow> number" where
  "to_double n =
     (if bit_length n \<le> 53 then Num n
      else
        (let sh = bit_length n - 53;
             q = n div 2 ^ sh;
             r = n mod 2 ^ sh;
             q' = (if r > 2 ^ (sh - 1) \<or> (r = 2 ^ (sh - 1) \<and> odd q) then q + 1 else q)
         in if q' * 2 ^ sh \<ge> 2 ^ 1024 then Infinite else Num (q' * 2 ^ sh)))"

definition bits_value :: "jstring \<Rightarrow> int" where
  "bits_value ds = foldl (\<lambda>acc d. 2 * acc + (if d = 0x31 then 1 else 0)) 0 ds"

text \<open>
  \<open>parseInt(char, 2)\<close>: leading white space is skipped, a sign is read, then the longest
  run of binary digits; what follows is ignored, and no digit at all gives \<open>NaN\<close>.
\<close>

definition parseInt2 :: "jstring \<Rightarrow> number" where
  "parseInt2 t =
     (let s = dropWhile is_WhiteSpace t;
          neg = (case s of [] \<Rightarrow> False | c # _ \<Rightarrow> c = 0x2D);
          s' = (case s of [] \<Rightarrow> [] | c # r \<Rightarrow> if c = 0x2D \<or> c = 0x2B then r else s);
          ds = takeWhile (\<lambda>c. c = 0x30 \<or> c = 0x31) s'
      in if ds = [] then NaN
         else (case to_double (bits_value ds) of
                 Num i \<Rightarrow> Num (if neg then - i else i)
               | other \<Rightarrow> other))"

text \<open>\<open>String.fromCharCode\<close> takes its argument modulo \<open>2^16\<close>; \<open>NaN\<close> and the
  infinities become 0.\<close>

definition fromCharCode :: "number \<Rightarrow> 16 word" where
  "fromCharCode x = (case x of Num i \<Rightarrow> of_int i | _ \<Rightarrow> 0)"

definition binaryToText :: "jstring \<Rightarrow> jstring" where
  "binaryToText binary = map (\<lambda>char. fromCharCode (parseInt2 char)) (split_space binary)"

section \<open>JSON documents\<close>

text \<open>
  The documents the store holds. A number is an integer that a double holds, of at most
  20 digits: \<open>JSON.stringify\<close> writes these in plain digits and \<open>JSON.parse\<close> reads
  such digits to the nearest double. Other numbers (a fraction, an exponent, more
  digits) are floating point and outside this model; where a function of the model
  meets one it answers \<open>Unmodelled\<close>, and no \<open>catch\<close> of the model catches that.
  An object is the list of its own properties in property order.
\<close>

datatype json =
    JNull
  | JBool bool
  | JNum int
  | JStr jstring
  | JArr "json list"
  | JObj "(jstring \<times> json) list"

function dec_digits :: "int \<Rightarrow> jstring" where
  "dec_digits n =
     (if n < 10 then [0x30 + of_int n]
      else dec_digits (n div 10) @ [0x30 + of_int (n mod 10)])"
  by pat_completeness auto
termination
  by (relation "measure nat") auto

declare dec_digits.simps [simp del]

text \<open>\<open>Number::toString\<close> on an integer that a double holds exactly.\<close>

definition num_to_string :: "int \<Rightarrow> jstring" where
  "num_to_string i = (if i < 0 then 0x2D # dec_digits (- i) else dec_digits i)"

definition hex_digit :: "int \<Rightarrow> 16 word" where
  "hex_digit d = (if d < 10 then 0x30 + of_int d else 0x61 + of_int (d - 10))"

definition unicode_escape :: "16 word \<Rightarrow> jstring" where
  "unicode_escape c =
     [0x5C, 0x75, hex_digit (uint c div 4096), hex_digit (uint c div 256 mod 16),
      hex_digit (uint c div 16 mod 16), hex_digit (uint c mod 16)]"

definition is_high_surrogate :: "16 word \<Rightarrow> bool" where
  "is_high_surrogate c \<longleftrightarrow> 0xD800 \<le> c \<and> c \<le> 0xDBFF"

definition is_low_surrogate :: "16 word \<Rightarrow> bool" where
  "is_low_surrogate c \<longleftrightarrow> 0xDC00 \<le> c \<and> c \<le> 0xDFFF"

text \<open>
  The body of \<open>QuoteJSONString\<close>: the quote, the backslash and the control characters
  are escaped, and so is a surrogate without its partner. The line and paragraph
  separators \<open>U+2028\<close> and \<open>U+2029\<close> are written as they are.
\<close>

fun quote_units :: "jstring \<Rightarrow> jstring" where
  "quote_units [] = []"
| "quote_units (c # cs) =
     (if c = 0x08 then [0x5C, 0x62] @ quote_units cs
      else if c = 0x09 then [0x5C, 0x74] @ quote_units cs
      else if c = 0x0A then [0x5C, 0x6E] @ quote_units cs
      else if c = 0x0C then [0x5C, 0x66] @ quote_units cs
      else if c = 0x0D then [0x5C, 0x72] @ quote_units cs
      else if c = 0x22 then [0x5C, 0x22] @ quote_units cs
      else if c = 0x5C then [0x5C, 0x5C] @ quote_units cs
      else if c < 0x20 then unicode_escape c @ quote_units cs
      else if is_high_surrogate c then
        (case cs of
           [] \<Rightarrow> unicode_escape c
         | d # ds \<Rightarrow>
             if is_low_surrogate d then c # d # quote_units ds
             else unicode_escape c @ quote_units cs)
      else if is_low_surrogate c then unicode_escape c @ quote_units cs
      else c # quote_units cs)"

definition quote :: "jstring \<Rightarrow> jstring" where
  "quote s = [0x22] @ quote_units s @ [0x22]"

fun JSON_stringify :: "json \<Rightarrow> jstring" where
  "JSON_stringify JNull = str ''null''"
| "JSON_stringify (JBool b) = (if b then str ''true'' else str ''false'')"
| "JSON_stringify (JNum i) = num_to_string i"
| "JSON_stringify (JStr s) = quote s"
| "JSON_stringify (JArr vs) = [0x5B] @ join [0x2C] (map JSON_stringify vs) @ [0x5D]"
| "JSON_stringify (JObj ms) =
     [0x7B] @ join [0x2C] (map (\<lambda>m. quote (fst m) @ [0x3A] @ JSON_stringify (snd m)) ms) @ [0x7D]"

subsection \<open>JSON.parse\<close>

datatype token =
    LBrace | RBrace | LBracket | RBracket | Colon | Comma
  | TString jstring | TNumber int | TTrue | TFalse | TNull

definition emit :: "token \<Rightarrow> error + token list \<Rightarrow> error + token list" where
  "emit t r = (case r of Inl e \<Rightarrow> Inl e | Inr ts \<Rightarrow> Inr (t # ts))"

definition hex_value :: "16 word \<Rightarrow> int option" where
  "hex_value c =
     (if 0x30 \<le> c \<and> c \<le> 0x39 then Some (uint c - 0x30)
      else if 0x61 \<le> c \<and> c \<le> 0x66 then Some (uint c - 0x61 + 10)
      else if 0x41 \<le> c \<and> c \<le> 0x46 then Some (uint c - 0x41 + 10)
      else None)"

definition hex4 :: "16 word \<Rightarrow> 16 word \<Rightarrow> 16 word \<Rightarrow> 16 word \<Rightarrow> 16 word option" where
  "hex4 a b c d =
     (case (hex_value a, hex_value b, hex_value c, hex_value d) of
        (Some p, Some q, Some r, Some s) \<Rightarrow> Some (of_int (((p * 16 + q) * 16 + r) * 16 + s))
      | _ \<Rightarrow> None)"

definition is_digit :: "16 word \<Rightarrow> bool" where
  "is_digit c \<longleftrightarrow> 0x30 \<le> c \<and> c \<le> 0x39"

definition simple_escape :: "16 word \<Rightarrow> 16 word option" where
  "simple_escape e =
     (if e = 0x22 then Some 0x22 else if e = 0x5C then Some 0x5C
      else if e = 0x2F then Some 0x2F else if e = 0x62 then Some 0x08
      else if e = 0x66 then Some 0x0C else if e = 0x6E then Some 0x0A
      else if e = 0x72 then Some 0x0D else if e = 0x74 then Some 0x09
      else None)"

text \<open>
  The number that a run of digits denotes: the double nearest to it. With more than 20
  digits the nearest double is no longer prescribed, and the answer is
  \<open>Unmodelled\<close>.
\<close>

definition number_token :: "bool \<Rightarrow> int \<Rightarrow> error + token" where
  "number_token neg n =
     (if n < 10 ^ 20 then
        (case to_double n of
           Num m \<Rightarrow> Inr (TNumber (if neg then - m else m))
         | _ \<Rightarrow> Inl Unmodelled)
      else Inl Unmodelled)"

text \<open>
  The tokens of a JSON text. A number with a fraction or an exponent is a
  floating-point value: the lexer answers \<open>Unmodelled\<close> there.
\<close>

fun lex :: "jstring \<Rightarrow> error + token list"
  and lex_string :: "jstring \<Rightarrow> jstring \<Rightarrow> error + token list"
  and lex_digits :: "bool \<Rightarrow> int \<Rightarrow> jstring \<Rightarrow> error + token list"
where
  "lex [] = Inr []"
| "lex (c # cs) =
     (if c = 0x20 \<or> c = 0x09 \<or> c = 0x0A \<or> c = 0x0D then lex cs
      else if c = 0x7B then emit LBrace (lex cs)
      else if c = 0x7D then emit RBrace (lex cs)
      else if c = 0x5B then emit LBracket (lex cs)
      else if c = 0x5D then emit RBracket (lex cs)
      else if c = 0x3A then emit Colon (lex cs)
      else if c = 0x2C then emit Comma (lex cs)
      else if c = 0x22 then lex_string [] cs
      else if c = 0x74 then
        (case cs of
           r # u # e # rest \<Rightarrow>
             if [r, u, e] = str ''rue'' then emit TTrue (lex rest) else Inl SyntaxError
         | _ \<Rightarrow> Inl SyntaxError)
      else if c = 0x66 then
        (case cs of
           a # l # s # e # rest \<Rightarrow>
             if [a, l, s, e] = str ''alse'' then emit TFalse (lex rest) else Inl SyntaxError
         | _ \<Rightarrow> Inl SyntaxError)
      else if c = 0x6E then
        (case cs of
           u # l # l' # rest \<Rightarrow>
             if [u, l, l'] = str ''ull'' then emit TNull (lex rest) else Inl SyntaxError
         | _ \<Rightarrow> Inl SyntaxError)
      else if c = 0x30 then lex_digits False 0 cs
      else if is_digit c then lex_digits False (uint c - 0x30) cs
      else if c = 0x2D then
        (case cs of
           [] \<Rightarrow> Inl SyntaxError
         | d # rest \<Rightarrow>
             if d = 0x30 then lex_digits True 0 rest
             else if is_digit d then lex_digits True (uint d - 0x30) rest
             else Inl SyntaxError)
      else Inl SyntaxError)"
| "lex_string acc [] = Inl SyntaxError"
| "lex_string acc (c # cs) =
     (if c = 0x22 then emit (TString acc) (lex cs)
      else if c = 0x5C then
        (case cs of
           [] \<Rightarrow> Inl SyntaxError
         | e # rest \<Rightarrow>
             if e = 0x75 then
               (case rest of
                  h1 # h2 # h3 # h4 # rest' \<Rightarrow>
                    (case hex4 h1 h2 h3 h4 of
                       None \<Rightarrow> Inl SyntaxError
                     | Some u \<Rightarrow> lex_string (acc @ [u]) rest')
                | _ \<Rightarrow> Inl SyntaxError)
             else
               (case simple_escape e of
                  None \<Rightarrow> Inl SyntaxError
                | Some u \<Rightarrow> lex_string (acc @ [u]) rest))
      else if c < 0x20 then Inl SyntaxError
      else lex_string (acc @ [c]) cs)"
| "lex_digits neg n [] =
     (case number_token neg n of Inl error \<Rightarrow> Inl error | Inr t \<Rightarrow> Inr [t])"
| "lex_digits neg n (c # cs) =
     (if is_digit c \<and> n \<noteq> 0 then lex_digits neg (10 * n + (uint c - 0x30)) cs
      else if c = 0x2E \<or> c = 0x65 \<or> c = 0x45 then Inl Unmodelled
      else (case number_token neg n of
              Inl error \<Rightarrow> Inl error
            | Inr t \<Rightarrow> emit t (lex (c # cs))))"

text \<open>
  \<open>CreateDataProperty\<close> as \<open>JSON.parse\<close> uses it: a repeated key keeps its place and
  takes the later value, a new key goes to the end. (An engine lists the keys that are
  array indices first, in ascending order; that reordering of the members is not
  modelled.)
\<close>

fun define_property :: "(jstring \<times> json) list \<Rightarrow> jstring \<Rightarrow> json \<Rightarrow> (jstring \<times> json) list" where
  "define_property [] k v = [(k, v)]"
| "define_property ((k', v') # ms) k v =
     (if k' = k then (k, v) # ms else (k', v') # define_property ms k v)"

datatype frame =
    FArr "json list"
  | FObj "(jstring \<times> json) list"
  | FKey "(jstring \<times> json) list" jstring

datatype mode = MValue | MValueOrEnd | MKeyOrEnd | MKey | MColon | MAfter | MDone json | MError

fun push_value :: "json \<Rightarrow> frame list \<Rightarrow> mode \<times> frame list" where
  "push_value v [] = (MDone v, [])"
| "push_value v (FArr es # st) = (MAfter, FArr (es @ [v]) # st)"
| "push_value v (FKey ms k # st) = (MAfter, FObj (define_property ms k v) # st)"
| "push_value v (FObj ms # st) = (MError, [])"

fun begin_value :: "token \<Rightarrow> frame list \<Rightarrow> mode \<times> frame list" where
  "begin_value (TString s) st = push_value (JStr s) st"
| "begin_value (TNumber i) st = push_value (JNum i) st"
| "begin_value TTrue st = push_value (JBool True) st"
| "begin_value TFalse st = push_value (JBool False) st"
| "begin_value TNull st = push_value JNull st"
| "begin_value LBracket st = (MValueOrEnd, FArr [] # st)"
| "begin_value LBrace st = (MKeyOrEnd, FObj [] # st)"
| "begin_value _ st = (MError, [])"

fun parse_step :: "mode \<times> frame list \<Rightarrow> token \<Rightarrow> mode \<times> frame list" where
  "parse_step (MValue, st) t = begin_value t st"
| "parse_step (MValueOrEnd, FArr es # st) t =
     (if t = RBracket then push_value (JArr es) st else begin_value t (FArr es # st))"
| "parse_step (MKeyOrEnd, FObj ms # st) t =
     (case t of
        RBrace \<Rightarrow> push_value (JObj ms) st
      | TString k \<Rightarrow> (MColon, FKey ms k # st)
      | _ \<Rightarrow> (MError, []))"
| "parse_step (MKey, FObj ms # st) t =
     (case t of TString k \<Rightarrow> (MColon, FKey ms k # st) | _ \<Rightarrow> (MError, []))"
| "parse_step (MColon, st) t = (if t = Colon then (MValue, st) else (MError, []))"
| "parse_step (MAfter, FArr es # st) t =
     (case t of
        Comma \<Rightarrow> (MValue, FArr es # st)
      | RBracket \<Rightarrow> push_value (JArr es) st
      | _ \<Rightarrow> (MError, []))"
| "parse_step (MAfter, FObj ms # st) t =
     (case t of
        Comma \<Rightarrow> (MKey, FObj ms # st)
      | RBrace \<Rightarrow> push_value (JObj ms) st
      | _ \<Rightarrow> (MError, []))"
| "parse_step _ t = (MError, [])"

definition JSON_parse :: "jstring \<Rightarrow> error + json" where
  "JSON_parse s =
     (case lex s of
        Inl e \<Rightarrow> Inl e
      | Inr ts \<Rightarrow>
          (case foldl parse_step (MValue, []) ts of
             (MDone v, _) \<Rightarrow> Inr v
           | _ \<Rightarrow> Inl SyntaxError))"

section \<open>Property access on a document\<close>

text \<open>
  The module is an ECMAScript module and so runs in strict mode: a property write that
  fails, and the deletion of a property that cannot be deleted, raise \<open>TypeError\<close>.
\<close>

definition array_index :: "jstring \<Rightarrow> nat option" where
  "array_index key =
     (if key \<noteq> [] \<and> list_all is_digit key \<and> (key = [0x30] \<or> hd key \<noteq> 0x30)
         \<and> foldl (\<lambda>acc d. 10 * acc + (uint d - 0x30)) 0 key < 2 ^ 32 - 1
      then Some (nat (foldl (\<lambda>acc d. 10 * acc + (uint d - 0x30)) 0 key))
      else None)"

text \<open>
  \<open>data[key]\<close>. \<open>None\<close> says that \<open>data\<close> has no own property \<open>key\<close>: the
  result is then \<open>undefined\<close>, unless \<open>key\<close> names a built-in that the prototype of
  \<open>data\<close> provides.
\<close>

definition js_get :: "json \<Rightarrow> jstring \<Rightarrow> error + json option" where
  "js_get d key =
     (case d of
        JNull \<Rightarrow> Inl TypeError
      | JObj ms \<Rightarrow> Inr (map_of ms key)
      | JArr es \<Rightarrow>
          (if key = str ''length'' then Inr (Some (JNum (int (length es))))
           else (case array_index key of
                   Some i \<Rightarrow> Inr (if i < length es then Some (es ! i) else None)
                 | None \<Rightarrow> Inr None))
      | JStr s \<Rightarrow>
          (if key = str ''length'' then Inr (Some (JNum (int (length s))))
           else (case array_index key of
                   Some i \<Rightarrow> Inr (if i < length s then Some (JStr [s ! i]) else None)
                 | None \<Rightarrow> Inr None))
      | _ \<Rightarrow> Inr None)"

text \<open>
  \<open>data[key] = value\<close>, as far as \<open>JSON.stringify\<close> sees the result. The key
  \<open>__proto__\<close> reaches the setter of the prototype unless it is an own property; an
  array grows with holes, which are serialized as \<open>null\<close>, and keeps any other key
  out of its serialization. Writing the \<open>length\<close> of an array converts the value to
  a number and is outside this model.
\<close>

definition js_assign :: "json \<Rightarrow> jstring \<Rightarrow> json \<Rightarrow> error + json" where
  "js_assign d key v =
     (case d of
        JObj ms \<Rightarrow>
          (if key = str ''__proto__'' \<and> map_of ms key = None then Inr (JObj ms)
           else Inr (JObj (define_property ms key v)))
      | JArr es \<Rightarrow>
          (if key = str ''length'' then Inl Unmodelled
           else (case array_index key of
                   Some i \<Rightarrow>
                     Inr (JArr (if i < length es then es[i := v]
                                else es @ replicate (i - length es) JNull @ [v]))
                 | None \<Rightarrow> Inr (JArr es)))
      | _ \<Rightarrow> Inl TypeError)"

text \<open>
  \<open>delete json[key]\<close>: the operator answers \<open>true\<close> whether or not the property
  was there; \<open>length\<close> and the indices of a string cannot be deleted.
\<close>

definition js_delete :: "json \<Rightarrow> jstring \<Rightarrow> error + bool \<times> json" where
  "js_delete d key =
     (case d of
        JNull \<Rightarrow> Inl TypeError
      | JObj ms \<Rightarrow> Inr (True, JObj (filter (\<lambda>m. fst m \<noteq> key) ms))
      | JArr es \<Rightarrow>
          (if key = str ''length'' then Inl TypeError
           else (case array_index key of
                   Some i \<Rightarrow> Inr (True, JArr (if i < length es then es[i := JNull] else es))
                 | None \<Rightarrow> Inr (True, JArr es)))
      | JStr s \<Rightarrow>
          (if key = str ''length'' then Inl TypeError
           else (case array_index key of
                   Some i \<Rightarrow> if i < length s then Inl TypeError else Inr (True, JStr s)
                 | None \<Rightarrow> Inr (True, JStr s)))
      | _ \<Rightarrow> Inr (True, d))"

text \<open>\<open>Object.keys(data)\<close> and \<open>Object.values(data)\<close>.\<close>

definition Object_keys :: "json \<Rightarrow> error + jstring list" where
  "Object_keys d =
     (case d of
        JNull \<Rightarrow> Inl TypeError
      | JObj ms \<Rightarrow> Inr (map fst ms)
      | JArr es \<Rightarrow> Inr (map (\<lambda>i. num_to_string (int i)) [0 ..< length es])
      | JStr s \<Rightarrow> Inr (map (\<lambda>i. num_to_string (int i)) [0 ..< length s])
      | _ \<Rightarrow> Inr [])"


section \<open>The backing system\<close>

text \<open>
  Modelled from the spec: the backing system is the host's scoreboard, which the
  module reaches through \<open>world.getDimension(...).runCommand\<close> and which is not part of
  the sources. It holds named tables (objectives) of named entries (players) with an
  integer value each, and offers the five operations of the spec's adapter
  (\<open>createTable\<close>, \<open>dropTable\<close>, \<open>setCounter\<close>, \<open>listAllCounters\<close>,
  \<open>testCounter\<close>) and the addition \<open>scoreboard players add\<close>. A command that fails
  raises an exception (\<open>Inl\<close>). Table names are taken to be single command words.
\<close>

type_synonym table = "jstring \<times> (jstring \<times> int) list"
type_synonym world = "table list"

definition has_table :: "jstring \<Rightarrow> world \<Rightarrow> bool" where
  "has_table name w \<longleftrightarrow> name \<in> fst ` set w"

text \<open>\<open>scoreboard objectives add name dummy\<close> fails when the table exists.\<close>

definition createTable :: "jstring \<Rightarrow> world \<Rightarrow> error + world" where
  "createTable name w = (if has_table name w then Inl CommandError else Inr (w @ [(name, [])]))"

text \<open>\<open>scoreboard objectives remove name\<close> fails when there is no such table.\<close>

definition dropTable :: "jstring \<Rightarrow> world \<Rightarrow> error + world" where
  "dropTable name w =
     (if has_table name w then Inr (filter (\<lambda>t. fst t \<noteq> name) w) else Inl CommandError)"

fun put_entry :: "(jstring \<times> int) list \<Rightarrow> jstring \<Rightarrow> int \<Rightarrow> (jstring \<times> int) list" where
  "put_entry [] entry v = [(entry, v)]"
| "put_entry ((e, x) # es) entry v =
     (if e = entry then (e, v) # es else (e, x) # put_entry es entry v)"

text \<open>\<open>scoreboard players set "entry" table v\<close> fails when there is no such table.\<close>

definition setCounter :: "jstring \<Rightarrow> jstring \<Rightarrow> int \<Rightarrow> world \<Rightarrow> error + world" where
  "setCounter name entry v w =
     (if has_table name w
      then Inr (map (\<lambda>t. if fst t = name then (fst t, put_entry (snd t) entry v) else t) w)
      else Inl CommandError)"

text \<open>\<open>scoreboard players add "entry" table v\<close>: an entry without a value counts as 0.\<close>

definition addCounter :: "jstring \<Rightarrow> jstring \<Rightarrow> int \<Rightarrow> world \<Rightarrow> error + world" where
  "addCounter name entry v w =
     (case map_of w name of
        None \<Rightarrow> Inl CommandError
      | Some es \<Rightarrow>
          setCounter name entry ((case map_of es entry of None \<Rightarrow> 0 | Some x \<Rightarrow> x) + v) w)"

text \<open>
  \<open>scoreboard players test "entry" table * *\<close> fails when the table or the entry is
  missing, and reports the value otherwise.
\<close>

definition testCounter :: "jstring \<Rightarrow> jstring \<Rightarrow> world \<Rightarrow> error + int" where
  "testCounter name entry w =
     (case map_of w name of
        None \<Rightarrow> Inl CommandError
      | Some es \<Rightarrow> (case map_of es entry of None \<Rightarrow> Inl CommandError | Some x \<Rightarrow> Inr x))"

text \<open>
  \<open>scoreboard players list\<close>: one text that names every entry with a value in some
  table, the names separated by a comma and a space; it fails when there is none.
\<close>

definition listAllCounters :: "world \<Rightarrow> error + jstring" where
  "listAllCounters w =
     (let names = remdups (concat (map (\<lambda>t. map fst (snd t)) w))
      in if names = [] then Inl CommandError else Inr (join (str '', '') names))"

section \<open>Database\<close>

text \<open>
  \<open>runCommand\<close> catches the exception of a failed command and answers an error
  marker, which no caller in the class reads; what remains is the world.
\<close>

definition runCommand :: "(world \<Rightarrow> error + world) \<Rightarrow> world \<Rightarrow> world" where
  "runCommand command w = (case command w of Inl error \<Rightarrow> w | Inr w' \<Rightarrow> w')"

record Database =
  TABLE_NAME :: jstring
  MEMORY :: "(nat \<times> jstring) list"

definition DB_SAVE :: jstring where
  "DB_SAVE = str ''DB_SAVE''"

text \<open>The name \<open>DB_${TABLE_NAME}_${i}\<close> of the table of chunk \<open>i\<close>.\<close>

definition chunk_name :: "jstring \<Rightarrow> nat \<Rightarrow> jstring" where
  "chunk_name T i = str ''DB_'' @ T @ str ''_'' @ num_to_string (int i)"

text \<open>The encoded empty object \<open>{}\<close> that \<open>fetch\<close> falls back to.\<close>

definition fallback :: "(nat \<times> jstring) list" where
  "fallback = [(0, str ''01111011 01111101'')]"

definition build :: "jstring \<Rightarrow> world \<Rightarrow> world" where
  "build objective w =
     runCommand (addCounter objective DB_SAVE 0) (runCommand (createTable objective) w)"

text \<open>The getter \<open>SAVE_NAMES\<close>: the value of \<open>DB_SAVE\<close>, or 0 when the test fails.\<close>

definition SAVE_NAMES :: "jstring \<Rightarrow> world \<Rightarrow> int" where
  "SAVE_NAMES T w = (case testCounter T DB_SAVE w of Inl error \<Rightarrow> 0 | Inr x \<Rightarrow> x)"

text \<open>The setter \<open>SAVE_NAMES\<close> runs its command outside \<open>runCommand\<close>.\<close>

definition set_SAVE_NAMES :: "jstring \<Rightarrow> int \<Rightarrow> world \<Rightarrow> error + world" where
  "set_SAVE_NAMES T v w = setCounter T DB_SAVE v w"

text \<open>
  \<open>wipe\<close>: the loop reads the getter \<open>SAVE_NAMES\<close> at every turn. It ends because
  dropping a chunk table leaves the value of \<open>DB_SAVE\<close> in the table \<open>T\<close> alone.
\<close>

function wipe_loop :: "jstring \<Rightarrow> nat \<Rightarrow> world \<Rightarrow> world" where
  "wipe_loop T i w =
     (if int i \<le> SAVE_NAMES T w
      then wipe_loop T (Suc i) (runCommand (dropTable (chunk_name T i)) w)
      else w)"
  by pat_completeness auto
termination
proof (relation "measure (\<lambda>(T, i, w). nat (SAVE_NAMES T w + 1 - int i))", goal_cases)
  case 1
  show ?case by simp
next
  case (2 T i w)
  have ne: "chunk_name T i \<noteq> T"
  proof
    assume "chunk_name T i = T"
    then have "length (chunk_name T i) = length T" by simp
    then show False by (simp add: chunk_name_def str_def)
  qed
  have "map_of (filter (\<lambda>t. fst t \<noteq> chunk_name T i) w) T = map_of w T"
    using ne by (induction w) auto
  then have "SAVE_NAMES T (runCommand (dropTable (chunk_name T i)) w) = SAVE_NAMES T w"
    by (simp add: SAVE_NAMES_def testCounter_def runCommand_def dropTable_def)
  with 2 show ?case by simp
qed

declare wipe_loop.simps [simp del]

definition wipe :: "Database \<times> world \<Rightarrow> Database \<times> world" where
  "wipe s =
     (case s of (db, w) \<Rightarrow>
        (db\<lparr>MEMORY := []\<rparr>,
         build (TABLE_NAME db)
           (runCommand (dropTable (TABLE_NAME db)) (wipe_loop (TABLE_NAME db) 0 w))))"

text \<open>
  The search of \<open>fetch\<close>, \<open>(?<=name\()[0-1\s]+(?=\))\<close>: the first position that
  \<open>name(\<close> precedes and where a run of \<open>0\<close>, \<open>1\<close> and white space, taken as far as
  it goes, is not empty and stands before \<open>)\<close>. The table name enters the pattern as it
  is; this search is the pattern's meaning when the name has no character that a
  pattern reads as syntax.
\<close>

definition is_payload_unit :: "16 word \<Rightarrow> bool" where
  "is_payload_unit c \<longleftrightarrow> c = 0x30 \<or> c = 0x31 \<or> is_WhiteSpace c"

fun regex_scan :: "jstring \<Rightarrow> jstring \<Rightarrow> jstring \<Rightarrow> jstring option" where
  "regex_scan pat pre [] = None"
| "regex_scan pat pre (c # cs) =
     (let run = takeWhile is_payload_unit (c # cs)
      in if suffix pat pre \<and> run \<noteq> [] \<and> take 1 (drop (length run) (c # cs)) = [0x29]
         then Some run
         else regex_scan pat (pre @ [c]) cs)"

definition regex_match :: "jstring \<Rightarrow> jstring \<Rightarrow> jstring option" where
  "regex_match name s = regex_scan (name @ [0x28]) [] s"

function fetch_loop :: "jstring \<Rightarrow> world \<Rightarrow> nat \<Rightarrow> (nat \<times> jstring) list \<Rightarrow> error + (nat \<times> jstring) list" where
  "fetch_loop T w i mem =
     (if int i \<le> SAVE_NAMES T w then
        (case listAllCounters w of
           Inl error \<Rightarrow> Inl error
         | Inr SCOREBOARD_DATA \<Rightarrow>
             (case regex_match (chunk_name T i) SCOREBOARD_DATA of
                None \<Rightarrow> Inl TypeError
              | Some RAW_TABLE_DATA \<Rightarrow> fetch_loop T w (Suc i) (mem @ [(i, RAW_TABLE_DATA)])))
      else Inr mem)"
  by pat_completeness auto
termination
  by (relation "measure (\<lambda>(T, w, i, mem). nat (SAVE_NAMES T w + 1 - int i))") auto

declare fetch_loop.simps [simp del]

definition fetch :: "Database \<Rightarrow> world \<Rightarrow> Database" where
  "fetch db w =
     (case fetch_loop (TABLE_NAME db) w 0 (MEMORY db) of
        Inl error \<Rightarrow> db\<lparr>MEMORY := fallback\<rparr>
      | Inr mem \<Rightarrow> db\<lparr>MEMORY := mem\<rparr>)"

text \<open>The constructor: \<open>build\<close>, then \<open>fetch\<close>.\<close>

definition new_Database :: "jstring \<Rightarrow> world \<Rightarrow> Database \<times> world" where
  "new_Database T w =
     (let w' = build T w in (fetch \<lparr>TABLE_NAME = T, MEMORY = []\<rparr> w', w'))"

text \<open>
  The body of the getter \<open>data\<close> once the cache is decoded and joined:
  \<open>JSON.parse\<close> under a \<open>catch\<close> that answers \<open>{}\<close>. A text with a number outside
  the model is not an exception: the code returns a document there that the model does
  not hold, and the answer stays \<open>Unmodelled\<close>.
\<close>

definition parse_or_empty :: "jstring \<Rightarrow> error + json" where
  "parse_or_empty joined =
     (case JSON_parse joined of
        Inl error \<Rightarrow> (if error = Unmodelled then Inl Unmodelled else Inr (JObj []))
      | Inr v \<Rightarrow> Inr v)"

text \<open>The getter \<open>data\<close> reads the cache \<open>MEMORY\<close>, not the backing system.\<close>

definition data :: "Database \<Rightarrow> error + json" where
  "data db = parse_or_empty (concat (map (\<lambda>a. binaryToText (snd a)) (MEMORY db)))"

type_synonym 'a outcome = "(error + 'a) \<times> Database \<times> world"

fun save_loop :: "jstring \<Rightarrow> nat \<Rightarrow> jstring list \<Rightarrow> Database \<times> world \<Rightarrow> unit outcome" where
  "save_loop T index [] s = (Inr (), s)"
| "save_loop T index (chunk # rest) s =
     (case s of (db, w) \<Rightarrow>
        (case set_SAVE_NAMES T (int index) w of
           Inl error \<Rightarrow> (Inl error, db, w)
         | Inr w1 \<Rightarrow>
             (let name = chunk_name T index;
                  data = textToBinary chunk;
                  db' = db\<lparr>MEMORY := MEMORY db @ [(index, data)]\<rparr>;
                  w2 = runCommand (createTable name) w1;
                  w3 = runCommand (setCounter name (name @ [0x28] @ data @ [0x29]) 0) w2
              in save_loop T (Suc index) rest (db', w3))))"

text \<open>
  \<open>save\<close> once the document is serialized: \<open>wipe\<close> runs before the loop finds out
  that \<open>chunkString\<close> answered \<open>null\<close>.
\<close>

definition save_serialized :: "jstring \<Rightarrow> Database \<times> world \<Rightarrow> unit outcome" where
  "save_serialized text s =
     (case chunkString text MAX_DATABASE_STRING_SIZE of
        Inl error \<Rightarrow> (Inl error, s)
      | Inr SPLIT_DATA \<Rightarrow>
          (case SPLIT_DATA of
             None \<Rightarrow> (Inl TypeError, wipe s)
           | Some chunks \<Rightarrow> save_loop (TABLE_NAME (fst s)) 0 chunks (wipe s)))"

definition save :: "json \<Rightarrow> Database \<times> world \<Rightarrow> unit outcome" where
  "save json s = save_serialized (JSON_stringify json) s"

definition get :: "jstring \<Rightarrow> Database \<Rightarrow> error + json option" where
  "get key db = (case data db of Inl error \<Rightarrow> Inl error | Inr d \<Rightarrow> js_get d key)"

definition set_key :: "jstring \<Rightarrow> json \<Rightarrow> Database \<times> world \<Rightarrow> unit outcome" where
  "set_key key v s =
     (case data (fst s) of
        Inl error \<Rightarrow> (Inl error, s)
      | Inr d \<Rightarrow>
          (case js_assign d key v of
             Inl error \<Rightarrow> (Inl error, s)
           | Inr d' \<Rightarrow> save d' s))"

definition keys :: "Database \<Rightarrow> error + jstring list" where
  "keys db = (case data db of Inl error \<Rightarrow> Inl error | Inr d \<Rightarrow> Object_keys d)"

definition has :: "jstring \<Rightarrow> Database \<Rightarrow> error + bool" where
  "has key db = (case keys db of Inl error \<Rightarrow> Inl error | Inr ks \<Rightarrow> Inr (key \<in> set ks))"

definition delete :: "jstring \<Rightarrow> Database \<times> world \<Rightarrow> bool outcome" where
  "delete key s =
     (case data (fst s) of
        Inl error \<Rightarrow> (Inl error, s)
      | Inr json \<Rightarrow>
          (case js_delete json key of
             Inl error \<Rightarrow> (Inl error, s)
           | Inr (status, json') \<Rightarrow>
               (case save json' s of
                  (Inl error, s') \<Rightarrow> (Inl error, s')
                | (Inr u, s') \<Rightarrow> (Inr status, s'))))"


definition size_db :: "Database \<Rightarrow> error + nat" where
  "size_db db = (case keys db of Inl error \<Rightarrow> Inl error | Inr ks \<Rightarrow> Inr (length ks))"


definition getCollection :: "Database \<Rightarrow> error + json" where
  "getCollection db = data db"

section \<open>Predicates of the properties\<close>

subsection \<open>The chunk count record and the chunk tables\<close>

text \<open>No chunk table of \<open>T\<close> lies beyond the chunk count record.\<close>

definition no_stale_table :: "jstring \<Rightarrow> world \<Rightarrow> bool" where
  "no_stale_table T w \<longleftrightarrow> (\<forall>j. has_table (chunk_name T j) w \<longrightarrow> int j \<le> SAVE_NAMES T w)"

text \<open>The record is \<open>N\<close> and the chunk tables of \<open>T\<close> are those of the indices \<open>0..N\<close>.\<close>

definition chunk_invariant :: "jstring \<Rightarrow> world \<Rightarrow> nat \<Rightarrow> bool" where
  "chunk_invariant T w N \<longleftrightarrow>
     testCounter T DB_SAVE w = Inr (int N) \<and> (\<forall>j. has_table (chunk_name T j) w \<longleftrightarrow> j \<le> N)"

subsection \<open>A command that something other than the store runs\<close>


subsection \<open>A document at the chunk boundary\<close>

text \<open>
  The document \<open>{"a": s}\<close> where \<open>s\<close> is the line separator \<open>U+2028\<close> followed by
  \<open>n\<close> letters \<open>x\<close>; its serialization has \<open>n + 9\<close> code units.
\<close>

definition separator_document :: "nat \<Rightarrow> json" where
  "separator_document n = JObj [(str ''a'', JStr (0x2028 # replicate n 0x78))]"

subsection \<open>A backing system that holds one store\<close>

text \<open>A table name of letters, digits and underscores: one command word, and read
  literally by a regular expression.\<close>

definition plain_name :: "jstring \<Rightarrow> bool" where
  "plain_name T \<longleftrightarrow>
     list_all (\<lambda>c. is_digit c \<or> (0x41 \<le> c \<and> c \<le> 0x5A) \<or> (0x61 \<le> c \<and> c \<le> 0x7A) \<or> c = 0x5F) T"

text \<open>
  The entries that the store \<open>T\<close> writes: \<open>DB_SAVE\<close> in its coordination table, and
  in the table of a chunk the table's name followed by a payload of \<open>0\<close>, \<open>1\<close> and
  spaces in parentheses.
\<close>

definition store_entry :: "jstring \<Rightarrow> jstring \<Rightarrow> jstring \<Rightarrow> bool" where
  "store_entry T name entry \<longleftrightarrow>
     (name = T \<and> entry = DB_SAVE) \<or>
     ((\<exists>j. name = chunk_name T j) \<and>
      (\<exists>enc. entry = name @ [0x28] @ enc @ [0x29]
             \<and> list_all (\<lambda>c. c = 0x30 \<or> c = 0x31 \<or> c = 0x20) enc))"

text \<open>The backing system holds nothing but entries of the store \<open>T\<close>.\<close>

definition only_store :: "jstring \<Rightarrow> world \<Rightarrow> bool" where
  "only_store T w \<longleftrightarrow> (\<forall>t \<in> set w. \<forall>e \<in> set (snd t). store_entry T (fst t) (fst e))"

section \<open>The codec on non-empty text\<close>

lemma bin_digits_units: "d \<in> set (bin_digits n) \<Longrightarrow> d = 0x30 \<or> d = 0x31"
proof (induction n rule: bin_digits.induct)
  case (1 n)
  show ?case
  proof (cases "n < 2")
    case True
    with "1.prems" show ?thesis by (simp add: bin_digits.simps [of n] split: if_splits)
  next
    case False
    with "1.prems" "1.IH" show ?thesis
      by (auto simp add: bin_digits.simps [of n] split: if_splits)
  qed
qed

lemma bin_digits_not_Nil: "bin_digits n \<noteq> []"
  by (subst bin_digits.simps) simp

lemma bits_value_snoc:
  "bits_value (ds @ [d]) = 2 * bits_value ds + (if d = 0x31 then 1 else 0)"
  by (simp add: bits_value_def)

lemma bits_value_bin_digits: "0 \<le> n \<Longrightarrow> bits_value (bin_digits n) = n"
proof (induction n rule: bin_digits.induct)
  case (1 n)
  show ?case
  proof (cases "n < 2")
    case True
    with "1.prems" have "n = 0 \<or> n = 1" by arith
    then show ?thesis by (auto simp add: bin_digits.simps [of n] bits_value_def)
  next
    case False
    with "1.prems" have "bits_value (bin_digits (n div 2)) = n div 2"
      using "1.IH" by simp
    with False show ?thesis
      by (simp add: bin_digits.simps [of n] bits_value_snoc) presburger
  qed
qed

lemma bit_length_le: "n < 2 ^ k \<Longrightarrow> bit_length n \<le> k"
proof (induction k arbitrary: n)
  case 0
  then show ?case by (simp add: bit_length.simps [of n])
next
  case (Suc k)
  then have "n div 2 < 2 ^ k" by simp
  then have "bit_length (n div 2) \<le> k" by (rule Suc.IH)
  then show ?case by (simp add: bit_length.simps [of n])
qed

lemma to_double_small: "n < 2 ^ 53 \<Longrightarrow> to_double n = Num n"
  using bit_length_le [of n 53] by (simp add: to_double_def)

lemma is_WhiteSpace_bit: "d = 0x30 \<or> d = 0x31 \<Longrightarrow> \<not> is_WhiteSpace d"
  by (auto simp add: is_WhiteSpace_def is_LineTerminator_def)

lemma parseInt2_bin_digits:
  assumes "0 \<le> n" "n < 2 ^ 53"
  shows "parseInt2 (bin_digits n) = Num n"
proof -
  obtain c r where cr: "bin_digits n = c # r"
    using bin_digits_not_Nil [of n] by (cases "bin_digits n") auto
  have units: "\<forall>d \<in> set (c # r). d = 0x30 \<or> d = 0x31"
    using bin_digits_units [of _ n] cr by metis
  then have c: "c = 0x30 \<or> c = 0x31" by simp
  have drop: "dropWhile is_WhiteSpace (c # r) = c # r"
    using is_WhiteSpace_bit [OF c] by simp
  have sign: "c \<noteq> 0x2D" "c \<noteq> 0x2B" using c by auto
  have all: "takeWhile (\<lambda>c. c = 0x30 \<or> c = 0x31) (c # r) = c # r"
    using units by (intro takeWhile_eq_all_conv [THEN iffD2]) blast
  have "bits_value (c # r) = n" using bits_value_bin_digits [OF assms(1)] cr by simp
  then show ?thesis
    unfolding parseInt2_def cr Let_def drop
    using sign all to_double_small [OF assms(2)] by simp
qed

lemma fromCharCode_parseInt2: "fromCharCode (parseInt2 (bin_digits (uint c))) = c"
proof -
  have "uint c < 2 ^ 16" using uint_bounded [of c] by simp
  then have "uint c < 2 ^ 53" by simp
  then show ?thesis by (simp add: parseInt2_bin_digits fromCharCode_def)
qed

lemma split_space_no_space: "0x20 \<notin> set x \<Longrightarrow> split_space x = [x]"
  by (induction x) auto

lemma split_space_append:
  "0x20 \<notin> set x \<Longrightarrow> split_space (x @ 0x20 # rest) = x # split_space rest"
  by (induction x) (auto split: list.splits)

lemma split_space_join:
  "ts \<noteq> [] \<Longrightarrow> \<forall>t \<in> set ts. 0x20 \<notin> set t \<Longrightarrow> split_space (join [0x20] ts) = ts"
proof (induction ts rule: induct_list012)
  case 1
  then show ?case by simp
next
  case (2 x)
  then show ?case by (simp add: split_space_no_space)
next
  case (3 x y zs)
  then have "split_space (join [0x20] (y # zs)) = y # zs" by simp
  with "3.prems" show ?case by (simp add: split_space_append)
qed

text \<open>Every text but the empty one is decoded to what was encoded.\<close>

lemma binaryToText_textToBinary: "s \<noteq> [] \<Longrightarrow> binaryToText (textToBinary s) = s"
proof -
  assume ne: "s \<noteq> []"
  let ?ts = "map (\<lambda>char. bin_digits (uint char)) s"
  have "\<forall>t \<in> set ?ts. 0x20 \<notin> set t"
    using bin_digits_units by fastforce
  with ne have "split_space (join [0x20] ?ts) = ?ts"
    by (intro split_space_join) simp_all
  then show ?thesis
    by (simp add: binaryToText_def textToBinary_def fromCharCode_parseInt2 o_def map_idI)
qed

section \<open>The codec at the empty string\<close>

text \<open>
  C3 (as the code behaves, for the claim that decoding the encoding of \<open>s\<close> gives
  \<open>s\<close> back for every text, the empty string included): the encoding of the empty
  string is the empty string, and \<open>binaryToText\<close> splits it into one empty token,
  which \<open>parseInt\<close> reads as \<open>NaN\<close> and \<open>String.fromCharCode\<close> turns into the
  code unit 0: the result has length 1.
\<close>

theorem C3_empty_string_not_restored:
  "textToBinary [] = [] \<and> binaryToText (textToBinary []) = [0]"
  by code_simp

text \<open>
  C3, amended: for every text \<open>s\<close> but the empty one, of whatever code units,
  decoding the encoding of \<open>s\<close> gives \<open>s\<close> back. The store encodes chunks only,
  and a chunk is never empty.
\<close>

theorem C3_codec_inverse_non_empty: "s \<noteq> [] \<Longrightarrow> binaryToText (textToBinary s) = s"
  by (rule binaryToText_textToBinary)

theorem C3_codec_inverse_non_empty_witness:
  "[0x7B, 0x2028, 0xD800, 0, 0xFFFF] \<noteq> ([] :: jstring)
   \<and> binaryToText (textToBinary [0x7B, 0x2028, 0xD800, 0, 0xFFFF])
     = [0x7B, 0x2028, 0xD800, 0, 0xFFFF]"
proof -
  have ne: "[0x7B, 0x2028, 0xD800, 0, 0xFFFF] \<noteq> ([] :: jstring)" by simp
  from C3_codec_inverse_non_empty [OF ne] ne show ?thesis by simp
qed

section \<open>Line terminators in chunkString\<close>

text \<open>
  C2 (as the code behaves): the pieces of \<open>chunkString\<close> have length \<open>maxLen\<close> but
  the last and concatenate to the text, and the empty string gives an empty sequence.
  On the serialization of the string \<open>a\<close>, \<open>U+2028\<close>, \<open>b\<close>, five code units long,
  with \<open>maxLen = 3\<close>: the first piece stops before the separator with 2 units, the
  separator is in no piece, and the pieces concatenate to a different text. On the empty
  string the answer is \<open>null\<close>, not an empty array.
\<close>

theorem C2_chunkString_drops_line_terminators:
  "chunkString (JSON_stringify (JStr [0x61, 0x2028, 0x62])) 3
     = Inr (Some [[0x22, 0x61], [0x62, 0x22]])
   \<and> concat [[0x22, 0x61], [0x62, 0x22]] \<noteq> JSON_stringify (JStr [0x61, 0x2028, 0x62])
   \<and> chunkString [] 3 = Inr None"
  by code_simp

text \<open>
  C1 (as the code behaves): reading after \<open>save(d)\<close> returns \<open>d\<close>. The document
  \<open>{"a": "\u2028"}\<close> survives \<open>JSON.stringify\<close> and \<open>JSON.parse\<close>, and its
  \<open>save\<close> completes, but the read after it returns \<open>{"a": ""}\<close>: \<open>chunkString\<close>
  left the separator out of the chunks.
\<close>

theorem C1_line_separator_lost:
  "JSON_parse (JSON_stringify (JObj [(str ''a'', JStr [0x2028])]))
     = Inr (JObj [(str ''a'', JStr [0x2028])])
   \<and> fst (save (JObj [(str ''a'', JStr [0x2028])]) (new_Database (str ''T'') [])) = Inr ()
   \<and> data (fst (snd (save (JObj [(str ''a'', JStr [0x2028])]) (new_Database (str ''T'') []))))
     = Inr (JObj [(str ''a'', JStr [])])"
  by code_simp

text \<open>
  C10 (as the code behaves): \<open>set(k, v)\<close> leaves \<open>get(k')\<close> as it was for every other
  key \<open>k'\<close>. With the document \<open>{"a": 0}\<close>, the call \<open>set("a\u2028", 1)\<close> completes
  and \<open>get("a")\<close> changes from 0 to 1: the separator is lost from the new key on the
  way to the chunks, and the text read back names the key \<open>a\<close> twice.
\<close>

theorem C10_set_overwrites_other_key:
  "get (str ''a'') (fst (snd (save (JObj [(str ''a'', JNum 0)]) (new_Database (str ''T'') []))))
     = Inr (Some (JNum 0))
   \<and> str ''a'' \<noteq> str ''a'' @ [0x2028]
   \<and> fst (set_key (str ''a'' @ [0x2028]) (JNum 1)
          (snd (save (JObj [(str ''a'', JNum 0)]) (new_Database (str ''T'') [])))) = Inr ()
   \<and> get (str ''a'') (fst (snd (set_key (str ''a'' @ [0x2028]) (JNum 1)
          (snd (save (JObj [(str ''a'', JNum 0)]) (new_Database (str ''T'') []))))))
     = Inr (Some (JNum 1))"
  by code_simp

section \<open>The status of delete\<close>

text \<open>
  C4 (as the code behaves): \<open>delete(k)\<close> answers whether \<open>k\<close> was in the document. On
  a new store, whose document is \<open>{}\<close>, \<open>has("a")\<close> is false and \<open>delete("a")\<close>
  answers \<open>true\<close>; after \<open>set("a", 1)\<close> the second \<open>delete("a")\<close> answers \<open>true\<close>
  as the first does.
\<close>

theorem C4_delete_answers_true_for_absent_key:
  "has (str ''a'') (fst (new_Database (str ''T'') [])) = Inr False
   \<and> fst (delete (str ''a'') (new_Database (str ''T'') [])) = Inr True
   \<and> fst (delete (str ''a'') (snd (delete (str ''a'')
          (snd (set_key (str ''a'') (JNum 1) (new_Database (str ''T'') [])))))) = Inr True"
  by code_simp

section \<open>chunkString on text without line terminators\<close>

lemma take_upto_take: "take_upto n xs = take (nat n) xs"
proof (induction xs arbitrary: n)
  case Nil
  show ?case by simp
next
  case (Cons x xs)
  show ?case
  proof (cases "n \<le> 0")
    case True
    then show ?thesis by simp
  next
    case False
    then have "nat n = Suc (nat (n - 1))" by simp
    with False Cons show ?thesis by simp
  qed
qed

lemma regex_matches_Nil: "regex_matches n [] = []"
  by (simp add: regex_matches.simps)

lemma regex_matches_skip:
  "is_LineTerminator c \<Longrightarrow> regex_matches n (c # r) = regex_matches n r"
  by (simp add: regex_matches.simps [of n "c # r"] regex_matches.simps [of n r])

lemma regex_matches_piece:
  assumes "1 \<le> n" "pre \<noteq> []" "\<forall>c \<in> set pre. \<not> is_LineTerminator c" "length pre \<le> nat n"
    and "rest = [] \<or> is_LineTerminator (hd rest) \<or> length pre = nat n"
  shows "regex_matches n (pre @ rest) = pre # regex_matches n rest"
proof -
  obtain c r where pre: "pre = c # r" using assms(2) by (cases pre) auto
  have c: "\<not> is_LineTerminator c" using assms(3) pre by simp
  have all: "\<forall>x \<in> set r. \<not> is_LineTerminator x" using assms(3) pre by simp
  have r: "length r \<le> nat (n - 1)" using assms(1,4) pre by simp
  have split: "takeWhile (\<lambda>x. \<not> is_LineTerminator x) (r @ rest)
               = r @ takeWhile (\<lambda>x. \<not> is_LineTerminator x) rest"
    using all by (simp add: takeWhile_append2)
  have tail: "takeWhile (\<lambda>x. \<not> is_LineTerminator x) rest = [] \<or> length r = nat (n - 1)"
    using assms(1,5) pre by (cases rest) auto
  have tw: "take (nat (n - 1)) (takeWhile (\<lambda>x. \<not> is_LineTerminator x) (r @ rest)) = r"
    using tail r by (auto simp add: split)
  have len: "min (length (takeWhile (\<lambda>x. \<not> is_LineTerminator x) (r @ rest))) (nat (n - 1))
             = length r"
    using arg_cong [OF tw, of length] by simp
  have "regex_matches n (c # r @ rest) = (c # r) # regex_matches n rest"
    using c by (subst regex_matches.simps) (simp add: take_upto_take tw len)
  then show ?thesis by (simp add: pre)
qed

lemma regex_matches_no_LT_step:
  assumes "1 \<le> n" "s \<noteq> []" "\<forall>c \<in> set s. \<not> is_LineTerminator c"
  shows "regex_matches n s = take (nat n) s # regex_matches n (drop (nat n) s)"
proof -
  have "regex_matches n (take (nat n) s @ drop (nat n) s)
        = take (nat n) s # regex_matches n (drop (nat n) s)"
  proof (rule regex_matches_piece [OF assms(1)])
    show "take (nat n) s \<noteq> []" using assms(1,2) by simp
    show "\<forall>c \<in> set (take (nat n) s). \<not> is_LineTerminator c"
      using assms(3) by (meson in_set_takeD)
    show "length (take (nat n) s) \<le> nat n" by simp
    show "drop (nat n) s = [] \<or> is_LineTerminator (hd (drop (nat n) s))
          \<or> length (take (nat n) s) = nat n"
      by (cases "length s \<le> nat n") auto
  qed
  then show ?thesis by simp
qed

lemma concat_regex_matches:
  assumes "1 \<le> n"
  shows "\<forall>c \<in> set s. \<not> is_LineTerminator c \<Longrightarrow> concat (regex_matches n s) = s"
proof (induction "length s" arbitrary: s rule: less_induct)
  case less
  show ?case
  proof (cases "s = []")
    case True
    then show ?thesis by (simp add: regex_matches_Nil)
  next
    case False
    have "length (drop (nat n) s) < length s" using False assms by simp
    moreover have "\<forall>c \<in> set (drop (nat n) s). \<not> is_LineTerminator c"
      using less.prems by (meson in_set_dropD)
    ultimately have "concat (regex_matches n (drop (nat n) s)) = drop (nat n) s"
      by (rule less.hyps)
    then show ?thesis
      by (simp add: regex_matches_no_LT_step [OF assms False less.prems])
  qed
qed

section \<open>The backing system under the commands of the store\<close>
lemma map_fst_update:
  "map fst (map (\<lambda>t. if fst t = m then (fst t, g t) else t) w) = map fst w"
  by (induction w) auto

lemma has_table_createTable [simp]:
  "has_table n (runCommand (createTable m) w) \<longleftrightarrow> n = m \<or> has_table n w"
  by (auto simp add: runCommand_def createTable_def has_table_def)

lemma has_table_dropTable [simp]:
  "has_table n (runCommand (dropTable m) w) \<longleftrightarrow> n \<noteq> m \<and> has_table n w"
  by (auto simp add: runCommand_def dropTable_def has_table_def)

lemma has_table_setCounter [simp]:
  "has_table n (runCommand (setCounter m e v) w) \<longleftrightarrow> has_table n w"
proof -
  have "fst ` set (map (\<lambda>t. if fst t = m then (fst t, put_entry (snd t) e v) else t) w)
        = fst ` set w"
    using map_fst_update [of m "\<lambda>t. put_entry (snd t) e v" w]
    by (metis set_map)
  then show ?thesis
    by (simp add: runCommand_def setCounter_def has_table_def)
qed

lemma has_table_addCounter [simp]:
  "has_table n (runCommand (addCounter m e v) w) \<longleftrightarrow> has_table n w"
proof (cases "map_of w m")
  case None
  then show ?thesis by (simp add: runCommand_def addCounter_def)
next
  case (Some es)
  then have "runCommand (addCounter m e v) w
             = runCommand (setCounter m e ((case map_of es e of None \<Rightarrow> 0 | Some x \<Rightarrow> x) + v)) w"
    by (simp add: runCommand_def addCounter_def)
  then show ?thesis by simp
qed

lemma has_table_build [simp]: "has_table n (build T w) \<longleftrightarrow> n = T \<or> has_table n w"
  by (simp add: build_def)

lemma has_table_map_of: "has_table n w \<longleftrightarrow> map_of w n \<noteq> None"
  by (simp add: has_table_def map_of_eq_None_iff)

lemma chunk_name_neq [simp]: "chunk_name T i \<noteq> T"
proof
  assume "chunk_name T i = T"
  then have "length (chunk_name T i) = length T" by simp
  then show False by (simp add: chunk_name_def str_def)
qed

lemma map_of_createTable:
  "map_of (runCommand (createTable m) w) n
   = (if n = m \<and> \<not> has_table m w then Some [] else map_of w n)"
proof (cases "has_table m w")
  case True
  then show ?thesis by (simp add: runCommand_def createTable_def)
next
  case False
  then have "map_of w m = None" by (simp add: has_table_map_of)
  with False show ?thesis
    by (cases "map_of w n") (auto simp add: runCommand_def createTable_def map_add_def)
qed

lemma map_of_filter_fst:
  "map_of (filter (\<lambda>t. fst t \<noteq> m) w) n = (if n = m then None else map_of w n)"
  by (induction w) auto

lemma map_of_dropTable:
  "map_of (runCommand (dropTable m) w) n = (if n = m then None else map_of w n)"
proof (cases "has_table m w")
  case True
  then show ?thesis by (simp add: runCommand_def dropTable_def map_of_filter_fst)
next
  case False
  then show ?thesis by (auto simp add: runCommand_def dropTable_def has_table_map_of)
qed

lemma map_of_update:
  "map_of (map (\<lambda>t. if fst t = m then (fst t, g (snd t)) else t) w) n
   = (if n = m then map_option g (map_of w n) else map_of w n)"
  by (induction w) auto

lemma map_of_setCounter:
  "map_of (runCommand (setCounter m e v) w) n
   = (if n = m then map_option (\<lambda>es. put_entry es e v) (map_of w n) else map_of w n)"
proof (cases "has_table m w")
  case True
  then show ?thesis
    using map_of_update [of m "\<lambda>es. put_entry es e v" w n]
    by (simp add: runCommand_def setCounter_def)
next
  case False
  then show ?thesis by (auto simp add: runCommand_def setCounter_def has_table_map_of)
qed

lemma map_of_put_entry:
  "map_of (put_entry es e v) e' = (if e' = e then Some v else map_of es e')"
  by (induction es e v rule: put_entry.induct) auto

lemma SAVE_NAMES_map_of:
  "SAVE_NAMES T w =
     (case map_of w T of
        None \<Rightarrow> 0
      | Some es \<Rightarrow> (case map_of es DB_SAVE of None \<Rightarrow> 0 | Some x \<Rightarrow> x))"
  by (simp add: SAVE_NAMES_def testCounter_def split: option.splits)

section \<open>Chunk names and wipe\<close>
lemma uint_digit: "0 \<le> k \<Longrightarrow> k < 10 \<Longrightarrow> uint (0x30 + of_int k :: 16 word) = 0x30 + k"
proof -
  assume k: "0 \<le> k" "k < 10"
  have "uint (0x30 + of_int k :: 16 word) = (0x30 + k) mod 2 ^ 16"
    by (simp add: uint_word_ariths uint_word_of_int mod_add_right_eq)
  also have "\<dots> = 0x30 + k" using k by simp
  finally show ?thesis .
qed

lemma dec_value_dec_digits:
  "0 \<le> n \<Longrightarrow> foldl (\<lambda>acc d. 10 * acc + (uint d - 0x30)) 0 (dec_digits n) = n"
proof (induction n rule: dec_digits.induct)
  case (1 n)
  show ?case
  proof (cases "n < 10")
    case True
    with "1.prems" show ?thesis
      by (simp add: dec_digits.simps [of n] uint_digit)
  next
    case False
    with "1.prems" have IH:
      "foldl (\<lambda>acc d. 10 * acc + (uint d - 0x30)) 0 (dec_digits (n div 10)) = n div 10"
      using "1.IH" by simp
    have "0 \<le> n mod 10" "n mod 10 < 10" by simp_all
    then have "uint (0x30 + of_int (n mod 10) :: 16 word) = 0x30 + n mod 10"
      by (rule uint_digit)
    with False IH show ?thesis
      by (simp add: dec_digits.simps [of n])
  qed
qed

lemma num_to_string_inj: "num_to_string (int i) = num_to_string (int j) \<Longrightarrow> i = j"
proof -
  assume "num_to_string (int i) = num_to_string (int j)"
  then have "dec_digits (int i) = dec_digits (int j)" by (simp add: num_to_string_def)
  then have "foldl (\<lambda>acc d. 10 * acc + (uint d - 0x30)) 0 (dec_digits (int i))
             = foldl (\<lambda>acc d. 10 * acc + (uint d - 0x30)) 0 (dec_digits (int j))"
    by simp
  then show "i = j" by (simp add: dec_value_dec_digits)
qed

lemma chunk_name_inj [simp]: "chunk_name T i = chunk_name T j \<longleftrightarrow> i = j"
  using num_to_string_inj by (auto simp add: chunk_name_def)

lemma chunk_name_neq_sym [simp]: "T \<noteq> chunk_name T i"
  using chunk_name_neq [of T i] by metis

lemma SAVE_NAMES_dropTable_chunk [simp]:
  "SAVE_NAMES T (runCommand (dropTable (chunk_name T i)) w) = SAVE_NAMES T w"
  by (simp add: SAVE_NAMES_map_of map_of_dropTable)

lemma has_table_wipe_loop:
  "has_table n (wipe_loop T i w) \<longleftrightarrow>
     has_table n w \<and> \<not> (\<exists>j. i \<le> j \<and> int j \<le> SAVE_NAMES T w \<and> n = chunk_name T j)"
proof (induction T i w rule: wipe_loop.induct)
  case (1 T i w)
  show ?case
  proof (cases "int i \<le> SAVE_NAMES T w")
    case False
    then have "\<not> (\<exists>j. i \<le> j \<and> int j \<le> SAVE_NAMES T w \<and> n = chunk_name T j)" by auto
    with False show ?thesis by (simp add: wipe_loop.simps [of T i w])
  next
    case True
    have "(\<exists>j. i \<le> j \<and> int j \<le> SAVE_NAMES T w \<and> n = chunk_name T j)
          \<longleftrightarrow> n = chunk_name T i \<or> (\<exists>j. Suc i \<le> j \<and> int j \<le> SAVE_NAMES T w \<and> n = chunk_name T j)"
      using True by (metis Suc_leI le_neq_implies_less Suc_leD order_refl)
    with True "1.IH" show ?thesis
      by (auto simp add: wipe_loop.simps [of T i w])
  qed
qed

lemma addCounter_setCounter:
  "map_of w m = Some es \<Longrightarrow>
   runCommand (addCounter m e v) w
   = runCommand (setCounter m e ((case map_of es e of None \<Rightarrow> 0 | Some x \<Rightarrow> x) + v)) w"
  by (simp add: runCommand_def addCounter_def)

text \<open>After \<open>wipe\<close> the coordination table holds \<open>DB_SAVE\<close> with 0 and nothing else.\<close>

lemma map_of_rebuild: "map_of (build T (runCommand (dropTable T) w)) T = Some [(DB_SAVE, 0)]"
proof -
  let ?w1 = "runCommand (dropTable T) w"
  let ?w2 = "runCommand (createTable T) ?w1"
  have "\<not> has_table T ?w1" by simp
  then have w2: "map_of ?w2 T = Some []" by (simp add: map_of_createTable)
  then have "runCommand (addCounter T DB_SAVE 0) ?w2 = runCommand (setCounter T DB_SAVE 0) ?w2"
    using addCounter_setCounter [OF w2, of DB_SAVE 0] by simp
  then show ?thesis by (simp add: build_def map_of_setCounter w2)
qed

lemma wipe_eq:
  "wipe (db, w) =
     (db\<lparr>MEMORY := []\<rparr>,
      build (TABLE_NAME db) (runCommand (dropTable (TABLE_NAME db)) (wipe_loop (TABLE_NAME db) 0 w)))"
  by (simp add: wipe_def)

lemma has_table_wipe:
  "has_table n (snd (wipe (db, w))) \<longleftrightarrow>
     n = TABLE_NAME db \<or>
     (has_table n w \<and> \<not> (\<exists>j. int j \<le> SAVE_NAMES (TABLE_NAME db) w \<and> n = chunk_name (TABLE_NAME db) j))"
  by (auto simp add: wipe_eq has_table_wipe_loop)

section \<open>The loop of save\<close>
lemma testCounter_map_of:
  "testCounter T e w =
     (case map_of w T of
        None \<Rightarrow> Inl CommandError
      | Some es \<Rightarrow> (case map_of es e of None \<Rightarrow> Inl CommandError | Some x \<Rightarrow> Inr x))"
  by (simp add: testCounter_def)

text \<open>
  One turn of the loop of \<open>save\<close>, when the coordination table exists: the record takes
  the index, the cache grows by the encoded chunk, and the chunk table exists afterwards.
\<close>

lemma save_loop_Cons:
  assumes "has_table T w"
  shows "save_loop T i (chunk # rest) (db, w) =
           save_loop T (Suc i) rest
             (db\<lparr>MEMORY := MEMORY db @ [(i, textToBinary chunk)]\<rparr>,
              runCommand (setCounter (chunk_name T i)
                  (chunk_name T i @ [0x28] @ textToBinary chunk @ [0x29]) 0)
                (runCommand (createTable (chunk_name T i))
                  (runCommand (setCounter T DB_SAVE (int i)) w)))"
proof -
  have "set_SAVE_NAMES T (int i) w = Inr (runCommand (setCounter T DB_SAVE (int i)) w)"
    using assms by (simp add: set_SAVE_NAMES_def setCounter_def runCommand_def)
  then show ?thesis by (simp add: Let_def)
qed

lemma save_loop_result:
  assumes "has_table T w"
  shows "\<exists>db' w'. save_loop T i chunks (db, w) = (Inr (), db', w')
           \<and> TABLE_NAME db' = TABLE_NAME db
           \<and> MEMORY db' = MEMORY db @ zip [i ..< i + length chunks] (map textToBinary chunks)
           \<and> has_table T w'
           \<and> (\<forall>n. has_table n w' \<longleftrightarrow>
                  has_table n w \<or> (\<exists>j. i \<le> j \<and> j < i + length chunks \<and> n = chunk_name T j))
           \<and> (chunks \<noteq> [] \<longrightarrow> testCounter T DB_SAVE w' = Inr (int (i + length chunks) - 1))"
  using assms
proof (induction chunks arbitrary: i db w)
  case Nil
  then show ?case by auto
next
  case (Cons chunk rest)
  let ?w1 = "runCommand (setCounter T DB_SAVE (int i)) w"
  let ?w2 = "runCommand (createTable (chunk_name T i)) ?w1"
  let ?w3 = "runCommand (setCounter (chunk_name T i)
               (chunk_name T i @ [0x28] @ textToBinary chunk @ [0x29]) 0) ?w2"
  let ?db1 = "db\<lparr>MEMORY := MEMORY db @ [(i, textToBinary chunk)]\<rparr>"
  have step: "save_loop T i (chunk # rest) (db, w) = save_loop T (Suc i) rest (?db1, ?w3)"
    by (rule save_loop_Cons [OF Cons.prems])
  have T3: "has_table T ?w3" using Cons.prems by simp
  obtain es where es: "map_of w T = Some es"
    using Cons.prems by (auto simp add: has_table_map_of)
  have "map_of ?w3 T = Some (put_entry es DB_SAVE (int i))"
    by (simp add: map_of_setCounter map_of_createTable es)
  then have rec3: "testCounter T DB_SAVE ?w3 = Inr (int i)"
    by (simp add: testCounter_map_of map_of_put_entry)
  have tabs3: "has_table n ?w3 \<longleftrightarrow> has_table n w \<or> n = chunk_name T i" for n
    by auto
  from Cons.IH [OF T3, of "Suc i" ?db1]
  obtain db' w' where r: "save_loop T (Suc i) rest (?db1, ?w3) = (Inr (), db', w')"
    and name: "TABLE_NAME db' = TABLE_NAME ?db1"
    and mem: "MEMORY db' = MEMORY ?db1 @ zip [Suc i ..< Suc i + length rest] (map textToBinary rest)"
    and T': "has_table T w'"
    and tabs: "\<forall>n. has_table n w' \<longleftrightarrow>
                 has_table n ?w3 \<or> (\<exists>j. Suc i \<le> j \<and> j < Suc i + length rest \<and> n = chunk_name T j)"
    and rec: "rest \<noteq> [] \<longrightarrow> testCounter T DB_SAVE w' = Inr (int (Suc i + length rest) - 1)"
    by blast
  have mem': "MEMORY db' = MEMORY db @ zip [i ..< i + length (chunk # rest)] (map textToBinary (chunk # rest))"
  proof -
    define z where "z = zip [Suc i ..< Suc i + length rest] (map textToBinary rest)"
    have "i < i + length (chunk # rest)" by simp
    then have "[i ..< i + length (chunk # rest)] = i # [Suc i ..< i + length (chunk # rest)]"
      by (rule upt_conv_Cons)
    moreover have "i + length (chunk # rest) = Suc i + length rest" by simp
    ultimately have "[i ..< i + length (chunk # rest)] = i # [Suc i ..< Suc i + length rest]"
      by (simp only:)
    then have "zip [i ..< i + length (chunk # rest)] (map textToBinary (chunk # rest))
               = (i, textToBinary chunk) # z"
      by (simp only: list.map zip_Cons_Cons z_def)
    moreover have "MEMORY db' = (MEMORY db @ [(i, textToBinary chunk)]) @ z"
      using mem by (simp only: z_def) simp
    ultimately show ?thesis by simp
  qed
  have tabs': "\<forall>n. has_table n w' \<longleftrightarrow>
                 has_table n w \<or> (\<exists>j. i \<le> j \<and> j < i + length (chunk # rest) \<and> n = chunk_name T j)"
  proof
    fix n
    have "(\<exists>j. i \<le> j \<and> j < i + length (chunk # rest) \<and> n = chunk_name T j)
          \<longleftrightarrow> n = chunk_name T i \<or> (\<exists>j. Suc i \<le> j \<and> j < Suc i + length rest \<and> n = chunk_name T j)"
      by (auto simp add: Suc_le_eq le_less)
    then show "has_table n w' \<longleftrightarrow>
                 has_table n w \<or> (\<exists>j. i \<le> j \<and> j < i + length (chunk # rest) \<and> n = chunk_name T j)"
      using tabs tabs3 by blast
  qed
  have rec': "testCounter T DB_SAVE w' = Inr (int (i + length (chunk # rest)) - 1)"
  proof (cases "rest = []")
    case True
    with r have "w' = ?w3" by simp
    with rec3 True show ?thesis by simp
  next
    case False
    with rec show ?thesis by simp
  qed
  show ?case
    unfolding step using r name mem' T' tabs' rec' by simp
qed

section \<open>What save leaves behind\<close>
lemma digit_not_LineTerminator:
  assumes "0 \<le> k" "k < 10"
  shows "\<not> is_LineTerminator (0x30 + of_int k :: 16 word)"
proof
  define c :: "16 word" where "c = 0x30 + of_int k"
  have u: "uint c = 0x30 + k" unfolding c_def using assms by (rule uint_digit)
  assume "is_LineTerminator (0x30 + of_int k :: 16 word)"
  then have "c = 0x0A \<or> c = 0x0D \<or> c = 0x2028 \<or> c = 0x2029"
    by (simp add: is_LineTerminator_def c_def)
  then have "uint c = 0x0A \<or> uint c = 0x0D \<or> uint c = 0x2028 \<or> uint c = 0x2029"
    by auto
  with u assms show False by simp
qed

lemma dec_digits_head:
  "0 \<le> n \<Longrightarrow> \<exists>c r. dec_digits n = c # r \<and> \<not> is_LineTerminator c"
proof (induction n rule: dec_digits.induct)
  case (1 n)
  show ?case
  proof (cases "n < 10")
    case True
    with "1.prems" show ?thesis
      by (simp add: dec_digits.simps [of n] digit_not_LineTerminator)
  next
    case False
    have "0 \<le> n div 10" using "1.prems" by simp
    with False "1.IH" obtain c r where "dec_digits (n div 10) = c # r" "\<not> is_LineTerminator c"
      by blast
    with False show ?thesis by (simp add: dec_digits.simps [of n])
  qed
qed

text \<open>No document is serialized to the empty text, or to one that a line terminator starts.\<close>

lemma JSON_stringify_head:
  "\<exists>c r. JSON_stringify d = c # r \<and> \<not> is_LineTerminator c"
proof (cases d)
  case JNull
  then show ?thesis by (simp add: str_def is_LineTerminator_def)
next
  case (JBool b)
  then show ?thesis by (simp add: str_def is_LineTerminator_def)
next
  case (JNum i)
  show ?thesis
  proof (cases "i < 0")
    case True
    with JNum show ?thesis by (simp add: num_to_string_def is_LineTerminator_def)
  next
    case False
    then have "0 \<le> i" by simp
    from dec_digits_head [OF this] JNum False show ?thesis by (simp add: num_to_string_def)
  qed
next
  case (JStr s)
  then show ?thesis by (simp add: quote_def is_LineTerminator_def)
next
  case (JArr vs)
  then show ?thesis by (simp add: is_LineTerminator_def)
next
  case (JObj ms)
  then show ?thesis by (simp add: is_LineTerminator_def)
qed

lemma regex_matches_not_Nil:
  "\<not> is_LineTerminator c \<Longrightarrow> regex_matches n (c # r) \<noteq> []"
  by (subst regex_matches.simps) (simp add: Let_def)

lemma regex_matches_pieces_not_Nil: "m \<in> set (regex_matches n s) \<Longrightarrow> m \<noteq> []"
proof (induction n s rule: regex_matches.induct)
  case (1 n s)
  show ?case
  proof (cases "dropWhile is_LineTerminator s")
    case Nil
    with "1.prems" show ?thesis by (simp add: regex_matches.simps [of n s])
  next
    case (Cons c r)
    let ?m = "c # take_upto (n - 1) (takeWhile (\<lambda>x. \<not> is_LineTerminator x) r)"
    from "1.prems" Cons have "m = ?m \<or> m \<in> set (regex_matches n (drop (length ?m) (c # r)))"
      by (simp add: regex_matches.simps [of n s] Let_def)
    then show ?thesis
    proof
      assume "m = ?m"
      then show ?thesis by simp
    next
      assume "m \<in> set (regex_matches n (drop (length ?m) (c # r)))"
      with "1.IH" [OF Cons refl] show ?thesis by simp
    qed
  qed
qed

lemma chunkString_JSON_stringify:
  "\<exists>chunk rest. chunkString (JSON_stringify d) MAX_DATABASE_STRING_SIZE = Inr (Some (chunk # rest))"
proof -
  obtain c r where "JSON_stringify d = c # r" "\<not> is_LineTerminator c"
    using JSON_stringify_head by blast
  then have "regex_matches MAX_DATABASE_STRING_SIZE (JSON_stringify d) \<noteq> []"
    by (simp add: regex_matches_not_Nil)
  then show ?thesis
    by (cases "regex_matches MAX_DATABASE_STRING_SIZE (JSON_stringify d)")
       (auto simp add: chunkString_def MAX_DATABASE_STRING_SIZE_def)
qed

text \<open>
  What \<open>save\<close> leaves behind when the split gives chunks: it completes, the cache holds
  the encoded chunks under their indices, the record is the last index, and the tables
  are those that \<open>wipe\<close> left together with one per chunk.
\<close>

lemma save_serialized_result:
  assumes "chunkString text MAX_DATABASE_STRING_SIZE = Inr (Some chunks)"
  shows "\<exists>db' w'. save_serialized text (db, w) = (Inr (), db', w')
           \<and> TABLE_NAME db' = TABLE_NAME db
           \<and> MEMORY db' = zip [0 ..< length chunks] (map textToBinary chunks)
           \<and> (\<forall>n. has_table n w' \<longleftrightarrow>
                  has_table n (snd (wipe (db, w)))
                  \<or> (\<exists>j. j < length chunks \<and> n = chunk_name (TABLE_NAME db) j))
           \<and> testCounter (TABLE_NAME db) DB_SAVE w' = Inr (int (length chunks) - 1)"
proof -
  let ?T = "TABLE_NAME db"
  let ?w = "snd (wipe (db, w))"
  have w: "wipe (db, w) = (db\<lparr>MEMORY := []\<rparr>, ?w)" by (simp add: wipe_eq)
  have T: "has_table ?T ?w" by (simp add: has_table_wipe)
  have ne: "chunks \<noteq> []"
    using assms by (auto simp add: chunkString_def split: if_splits list.splits)
  from save_loop_result [OF T, of 0 chunks "db\<lparr>MEMORY := []\<rparr>"]
  obtain db' w' where r: "save_loop ?T 0 chunks (db\<lparr>MEMORY := []\<rparr>, ?w) = (Inr (), db', w')"
    and rest: "TABLE_NAME db' = ?T"
      "MEMORY db' = zip [0 ..< length chunks] (map textToBinary chunks)"
      "\<forall>n. has_table n w' \<longleftrightarrow> has_table n ?w \<or> (\<exists>j. j < length chunks \<and> n = chunk_name ?T j)"
      "testCounter ?T DB_SAVE w' = Inr (int (length chunks) - 1)"
    using ne by auto
  have "save_serialized text (db, w) = (Inr (), db', w')"
    using assms r w by (simp add: save_serialized_def)
  with rest show ?thesis by blast
qed

section \<open>The invariant of the chunk tables\<close>

lemma chunk_invariant_no_stale: "chunk_invariant T w N \<Longrightarrow> no_stale_table T w"
  by (simp add: chunk_invariant_def no_stale_table_def SAVE_NAMES_def)

lemma save_chunk_invariant:
  assumes "no_stale_table (TABLE_NAME db) w"
    and "chunkString (JSON_stringify d) MAX_DATABASE_STRING_SIZE = Inr (Some chunks)"
    and "length chunks = Suc N"
  shows "\<exists>db' w'. save d (db, w) = (Inr (), db', w') \<and> TABLE_NAME db' = TABLE_NAME db
           \<and> chunk_invariant (TABLE_NAME db) w' N"
proof -
  let ?T = "TABLE_NAME db"
  from save_serialized_result [OF assms(2), of db w]
  obtain db' w' where r: "save_serialized (JSON_stringify d) (db, w) = (Inr (), db', w')"
    and name: "TABLE_NAME db' = ?T"
    and tabs: "\<forall>n. has_table n w' \<longleftrightarrow>
                 has_table n (snd (wipe (db, w))) \<or> (\<exists>j. j < length chunks \<and> n = chunk_name ?T j)"
    and rec: "testCounter ?T DB_SAVE w' = Inr (int (length chunks) - 1)"
    by blast
  have "has_table (chunk_name ?T j) w' \<longleftrightarrow> j \<le> N" for j
  proof -
    have "\<not> has_table (chunk_name ?T j) (snd (wipe (db, w)))"
      using assms(1) by (auto simp add: has_table_wipe no_stale_table_def)
    with tabs assms(3) show ?thesis by (auto simp add: less_Suc_eq_le)
  qed
  moreover have "testCounter ?T DB_SAVE w' = Inr (int N)" using rec assms(3) by simp
  ultimately have "chunk_invariant ?T w' N" by (simp add: chunk_invariant_def)
  with r name show ?thesis by (simp add: save_def)
qed

lemma save_establishes_invariant:
  assumes "no_stale_table (TABLE_NAME db) w"
  shows "\<exists>db' w' N. save d (db, w) = (Inr (), db', w') \<and> TABLE_NAME db' = TABLE_NAME db
           \<and> chunk_invariant (TABLE_NAME db) w' N"
proof -
  obtain chunk rest
    where c: "chunkString (JSON_stringify d) MAX_DATABASE_STRING_SIZE = Inr (Some (chunk # rest))"
    using chunkString_JSON_stringify by blast
  from save_chunk_invariant [OF assms c, of "length rest"] show ?thesis by auto
qed

section \<open>The fallback of fetch\<close>

lemma fallback_decodes:
  "JSON_parse (concat (map (\<lambda>a. binaryToText (snd a)) fallback)) = Inr (JObj [])"
  by code_simp

section \<open>The chunk boundary\<close>

lemma quote_units_replicate_x: "quote_units (replicate n 0x78) = replicate n 0x78"
  by (induction n) (simp_all add: is_high_surrogate_def is_low_surrogate_def)

lemma JSON_stringify_separator_document:
  "JSON_stringify (separator_document n)
   = [0x7B, 0x22, 0x61, 0x22, 0x3A, 0x22] @ 0x2028 # (replicate n 0x78 @ [0x22, 0x7D])"
  by (simp add: separator_document_def quote_def str_def quote_units_replicate_x
      is_high_surrogate_def is_low_surrogate_def)

lemma chunkString_separator_document:
  assumes "int n + 2 \<le> MAX_DATABASE_STRING_SIZE"
  shows "chunkString (JSON_stringify (separator_document n)) MAX_DATABASE_STRING_SIZE
         = Inr (Some [[0x7B, 0x22, 0x61, 0x22, 0x3A, 0x22], replicate n 0x78 @ [0x22, 0x7D]])"
proof -
  let ?N = MAX_DATABASE_STRING_SIZE
  let ?pre = "[0x7B, 0x22, 0x61, 0x22, 0x3A, 0x22] :: jstring"
  let ?body = "replicate n 0x78 @ [0x22, 0x7D] :: jstring"
  have N: "1 \<le> ?N" "6 \<le> nat ?N" by (simp_all add: MAX_DATABASE_STRING_SIZE_def)
  have "regex_matches ?N (?pre @ 0x2028 # ?body) = ?pre # regex_matches ?N (0x2028 # ?body)"
    using N by (intro regex_matches_piece) (simp_all add: is_LineTerminator_def)
  also have "regex_matches ?N (0x2028 # ?body) = regex_matches ?N ?body"
    by (rule regex_matches_skip) (simp add: is_LineTerminator_def)
  also have "regex_matches ?N ?body = regex_matches ?N (?body @ [])" by simp
  also have "\<dots> = ?body # regex_matches ?N []"
    using N(1) assms by (intro regex_matches_piece) (auto simp add: is_LineTerminator_def)
  finally have "regex_matches ?N (JSON_stringify (separator_document n)) = [?pre, ?body]"
    by (simp only: JSON_stringify_separator_document regex_matches_Nil)
  then show ?thesis
    by (simp add: chunkString_def MAX_DATABASE_STRING_SIZE_def)
qed

lemma length_separator_document: "length (JSON_stringify (separator_document n)) = n + 9"
  by (simp only: JSON_stringify_separator_document) simp

text \<open>
  C8 (as the code behaves): a serialization of exactly 32000 code units gives one
  chunk, one of 32001 gives two, the second of length 1. The serialization of
  \<open>separator_document 31991\<close> has 32000 code units and gives two chunks, of 6 and of
  31993 units; that of \<open>separator_document 31992\<close> has 32001 and its second chunk has
  31994. The separator is in neither chunk.
\<close>

theorem C8_separator_splits_early:
  "length (JSON_stringify (separator_document 31991)) = 32000
   \<and> (\<exists>c1 c2. chunkString (JSON_stringify (separator_document 31991)) MAX_DATABASE_STRING_SIZE
                = Inr (Some [c1, c2]) \<and> length c1 = 6 \<and> length c2 = 31993)
   \<and> length (JSON_stringify (separator_document 31992)) = 32001
   \<and> (\<exists>c1 c2. chunkString (JSON_stringify (separator_document 31992)) MAX_DATABASE_STRING_SIZE
                = Inr (Some [c1, c2]) \<and> length c1 = 6 \<and> length c2 = 31994)"
proof -
  have a: "int 31991 + 2 \<le> MAX_DATABASE_STRING_SIZE" "int 31992 + 2 \<le> MAX_DATABASE_STRING_SIZE"
    by (simp_all add: MAX_DATABASE_STRING_SIZE_def)
  show ?thesis
    unfolding chunkString_separator_document [OF a(1)] chunkString_separator_document [OF a(2)]
      length_separator_document
    by simp
qed

section \<open>A dropped chunk table\<close>

lemma only_store_createTable: "only_store T w \<Longrightarrow> only_store T (runCommand (createTable n) w)"
  by (auto simp add: only_store_def runCommand_def createTable_def)

lemma only_store_dropTable: "only_store T w \<Longrightarrow> only_store T (runCommand (dropTable n) w)"
  by (auto simp add: only_store_def runCommand_def dropTable_def)

lemma fst_put_entry: "fst ` set (put_entry es e v) = insert e (fst ` set es)"
  by (induction es e v rule: put_entry.induct) auto

lemma only_store_setCounter:
  assumes "only_store T w" "store_entry T n e"
  shows "only_store T (runCommand (setCounter n e v) w)"
proof (cases "has_table n w")
  case False
  with assms(1) show ?thesis by (simp add: runCommand_def setCounter_def)
next
  case True
  have "store_entry T (fst t') (fst x)"
    if "t' \<in> set (map (\<lambda>t. if fst t = n then (fst t, put_entry (snd t) e v) else t) w)"
      and "x \<in> set (snd t')" for t' x
  proof -
    from that(1) obtain t where t: "t \<in> set w"
      and t': "t' = (if fst t = n then (fst t, put_entry (snd t) e v) else t)"
      unfolding set_map by blast
    show ?thesis
    proof (cases "fst t = n")
      case False
      with t t' that(2) assms(1) show ?thesis by (auto simp add: only_store_def)
    next
      case eq: True
      with t' that(2) have "fst x \<in> fst ` set (put_entry (snd t) e v)" by auto
      then have "fst x = e \<or> fst x \<in> fst ` set (snd t)" by (simp add: fst_put_entry)
      then show ?thesis
      proof
        assume "fst x = e"
        with eq t' assms(2) show ?thesis by simp
      next
        assume "fst x \<in> fst ` set (snd t)"
        then obtain y where "y \<in> set (snd t)" "fst y = fst x" by auto
        with t assms(1) have "store_entry T (fst t) (fst x)"
          unfolding only_store_def by metis
        with eq t' show ?thesis by simp
      qed
    qed
  qed
  with True show ?thesis by (simp add: only_store_def runCommand_def setCounter_def)
qed

lemma only_store_addCounter:
  assumes "only_store T w" "store_entry T n e"
  shows "only_store T (runCommand (addCounter n e v) w)"
proof (cases "map_of w n")
  case None
  with assms(1) show ?thesis by (simp add: runCommand_def addCounter_def)
next
  case (Some es)
  from addCounter_setCounter [OF Some] only_store_setCounter [OF assms] show ?thesis by simp
qed

lemma only_store_build: "only_store T w \<Longrightarrow> only_store T (build T w)"
  by (simp add: build_def only_store_addCounter only_store_createTable store_entry_def)

lemma only_store_wipe_loop: "only_store T w \<Longrightarrow> only_store T (wipe_loop T i w)"
proof (induction T i w rule: wipe_loop.induct)
  case (1 T i w)
  then show ?case
    by (cases "int i \<le> SAVE_NAMES T w")
       (simp_all add: wipe_loop.simps [of T i w] only_store_dropTable)
qed

lemma only_store_wipe: "only_store (TABLE_NAME db) w \<Longrightarrow> only_store (TABLE_NAME db) (snd (wipe (db, w)))"
  by (simp add: wipe_eq only_store_build only_store_dropTable only_store_wipe_loop)

lemma join_units: "c \<in> set (join sep xs) \<Longrightarrow> c \<in> set sep \<or> (\<exists>x \<in> set xs. c \<in> set x)"
  by (induction sep xs rule: join.induct) auto

lemma textToBinary_units: "list_all (\<lambda>c. c = 0x30 \<or> c = 0x31 \<or> c = 0x20) (textToBinary chunk)"
proof -
  have "c = 0x30 \<or> c = 0x31 \<or> c = 0x20" if "c \<in> set (textToBinary chunk)" for c
    using join_units [OF that [unfolded textToBinary_def]] bin_digits_units by auto
  then show ?thesis by (simp add: list_all_iff)
qed

lemma only_store_save_loop:
  assumes "only_store T w"
  shows "only_store T (snd (snd (save_loop T i chunks (db, w))))"
  using assms
proof (induction chunks arbitrary: i db w)
  case Nil
  then show ?case by simp
next
  case (Cons chunk rest)
  show ?case
  proof (cases "has_table T w")
    case False
    then have "set_SAVE_NAMES T (int i) w = Inl CommandError"
      by (simp add: set_SAVE_NAMES_def setCounter_def)
    with Cons.prems show ?thesis by simp
  next
    case True
    let ?n = "chunk_name T i"
    let ?e = "?n @ [0x28] @ textToBinary chunk @ [0x29]"
    have e: "store_entry T ?n ?e"
      using textToBinary_units [of chunk] by (auto simp add: store_entry_def)
    have "only_store T (runCommand (setCounter ?n ?e 0)
            (runCommand (createTable ?n) (runCommand (setCounter T DB_SAVE (int i)) w)))"
      using Cons.prems e
      by (intro only_store_setCounter only_store_createTable) (simp_all add: store_entry_def)
    from Cons.IH [OF this] show ?thesis
      by (simp only: save_loop_Cons [OF True])
  qed
qed

lemma only_store_save:
  assumes "only_store (TABLE_NAME db) w"
  shows "only_store (TABLE_NAME db) (snd (snd (save d (db, w))))"
proof (cases "chunkString (JSON_stringify d) MAX_DATABASE_STRING_SIZE")
  case (Inl e)
  with assms show ?thesis by (simp add: save_def save_serialized_def)
next
  case (Inr split)
  show ?thesis
  proof (cases split)
    case None
    with Inr only_store_wipe [OF assms] show ?thesis
      by (simp add: save_def save_serialized_def)
  next
    case (Some chunks)
    have "wipe (db, w) = (db\<lparr>MEMORY := []\<rparr>, snd (wipe (db, w)))" by (simp add: wipe_eq)
    with Inr Some only_store_save_loop [OF only_store_wipe [OF assms], of 0 chunks "db\<lparr>MEMORY := []\<rparr>"]
    show ?thesis by (simp add: save_def save_serialized_def)
  qed
qed

lemma regex_scan_sublist: "regex_scan pat pre s = Some r \<Longrightarrow> sublist pat (pre @ s)"
proof (induction s arbitrary: pre)
  case Nil
  then show ?case by simp
next
  case (Cons c cs)
  show ?case
  proof (cases "suffix pat pre")
    case True
    then obtain us where "pre = us @ pat" by (auto simp add: suffix_def)
    then have "pre @ c # cs = us @ pat @ (c # cs)" by simp
    then show ?thesis unfolding sublist_def by blast
  next
    case False
    with Cons.prems have "regex_scan pat (pre @ [c]) cs = Some r" by (simp add: Let_def)
    from Cons.IH [OF this] show ?thesis by simp
  qed
qed

lemma sublist_join:
  assumes "P \<noteq> []" "set P \<inter> set sep = {}" "sep \<noteq> []"
  shows "sublist P (join sep names) \<Longrightarrow> \<exists>nm \<in> set names. sublist P nm"
proof (induction names rule: induct_list012)
  case 1
  with assms(1) show ?case by simp
next
  case (2 x)
  then show ?case by simp
next
  case (3 x y zs)
  let ?rest = "join sep (y # zs)"
  have not_sep: "\<not> sublist P sep"
  proof
    assume "sublist P sep"
    then have "set P \<subseteq> set sep" by (rule set_mono_sublist)
    with assms(1,2) show False by (cases P) auto
  qed
  have pre: "prefix p (sep @ r) \<Longrightarrow> p \<noteq> [] \<Longrightarrow> hd p \<in> set sep" for p r
    using assms(3) by (cases p; cases sep) (auto simp add: prefix_Cons)
  have suf: "suffix p sep \<Longrightarrow> p \<noteq> [] \<Longrightarrow> last p \<in> set sep" for p
    by (metis last_in_set suffix_def last_appendR assms(3) append_is_Nil_conv)
  from "3.prems" have "sublist P (x @ (sep @ ?rest))" by simp
  then consider "sublist P x" | "sublist P (sep @ ?rest)"
    | p1 p2 where "P = p1 @ p2" "suffix p1 x" "prefix p2 (sep @ ?rest)"
    unfolding sublist_append by blast
  then show ?case
  proof cases
    case 1
    then show ?thesis by auto
  next
    case 2
    then consider "sublist P sep" | "sublist P ?rest"
      | q1 q2 where "P = q1 @ q2" "suffix q1 sep" "prefix q2 ?rest"
      unfolding sublist_append by blast
    then show ?thesis
    proof cases
      case 1
      with not_sep show ?thesis by simp
    next
      case 2
      with "3.IH"(2) show ?thesis by auto
    next
      case 3
      show ?thesis
      proof (cases "q1 = []")
        case True
        with 3 have "sublist P ?rest" by (simp add: prefix_imp_sublist)
        with "3.IH"(2) show ?thesis by auto
      next
        case False
        with suf [OF 3(2)] have "last q1 \<in> set sep" by simp
        moreover have "last q1 \<in> set P" using False 3(1) by simp
        ultimately show ?thesis using assms(2) by auto
      qed
    qed
  next
    case 3
    show ?thesis
    proof (cases "p2 = []")
      case True
      with 3 have "sublist P x" by (simp add: suffix_imp_sublist)
      then show ?thesis by auto
    next
      case False
      with pre [OF 3(3)] have "hd p2 \<in> set sep" by simp
      moreover have "hd p2 \<in> set P" using False 3(1) by simp
      ultimately show ?thesis using assms(2) by auto
    qed
  qed
qed

lemma dec_digits_units:
  "0 \<le> n \<Longrightarrow> d \<in> set (dec_digits n) \<Longrightarrow> 0x30 \<le> uint d \<and> uint d \<le> 0x39"
proof (induction n rule: dec_digits.induct)
  case (1 n)
  show ?case
  proof (cases "n < 10")
    case True
    with "1.prems" have "d = 0x30 + of_int n" by (simp add: dec_digits.simps [of n])
    with True "1.prems"(1) show ?thesis by (simp add: uint_digit)
  next
    case False
    with "1.prems"(2) have "d \<in> set (dec_digits (n div 10)) \<or> d = 0x30 + of_int (n mod 10)"
      by (auto simp add: dec_digits.simps [of n])
    then show ?thesis
    proof
      assume "d \<in> set (dec_digits (n div 10))"
      moreover have "0 \<le> n div 10" using "1.prems"(1) by simp
      ultimately show ?thesis using "1.IH" False by blast
    next
      assume "d = 0x30 + of_int (n mod 10)"
      moreover have "0 \<le> n mod 10" "n mod 10 < 10" by simp_all
      ultimately show ?thesis by (simp add: uint_digit)
    qed
  qed
qed

lemma num_to_string_units:
  "d \<in> set (num_to_string (int i)) \<Longrightarrow> 0x30 \<le> uint d \<and> uint d \<le> 0x39"
  using dec_digits_units [of "int i" d] by (simp add: num_to_string_def)

lemma plain_name_units:
  assumes "plain_name T" "c \<in> set T"
  shows "c \<noteq> 0x28 \<and> c \<noteq> 0x2C \<and> c \<noteq> 0x20"
proof -
  from assms have "is_digit c \<or> (0x41 \<le> c \<and> c \<le> 0x5A) \<or> (0x61 \<le> c \<and> c \<le> 0x7A) \<or> c = 0x5F"
    by (simp add: plain_name_def list_all_iff)
  then show ?thesis by (auto simp add: is_digit_def)
qed

lemma chunk_name_units:
  assumes "plain_name T" "c \<in> set (chunk_name T i)"
  shows "c \<noteq> 0x28 \<and> c \<noteq> 0x2C \<and> c \<noteq> 0x20"
proof -
  from assms(2) consider "c \<in> set (str ''DB_'')" | "c \<in> set T" | "c \<in> set (str ''_'')"
    | "c \<in> set (num_to_string (int i))"
    by (auto simp add: chunk_name_def)
  then show ?thesis
  proof cases
    case 1
    then show ?thesis by (auto simp add: str_def)
  next
    case 2
    with assms(1) show ?thesis by (rule plain_name_units)
  next
    case 3
    then show ?thesis by (auto simp add: str_def)
  next
    case 4
    from num_to_string_units [OF this] show ?thesis by auto
  qed
qed

text \<open>The name of one chunk table does not end the name of another.\<close>

lemma chunk_name_suffix:
  assumes "suffix (chunk_name T i) (chunk_name T j)"
  shows "i = j"
proof -
  define di where "di = num_to_string (int i)"
  define dj where "dj = num_to_string (int j)"
  from assms obtain u where u: "chunk_name T j = u @ chunk_name T i"
    by (auto simp add: suffix_def)
  define X where "X = str ''DB_'' @ T @ str ''_''"
  define Y where "Y = u @ str ''DB_'' @ T"
  have eq: "X @ dj = (Y @ [0x5F]) @ di"
    using u by (simp add: chunk_name_def str_def X_def Y_def di_def dj_def)
  have lenX: "length (Y @ [0x5F]) = length u + length X" by (simp add: X_def Y_def str_def)
  from arg_cong [OF eq, of length] lenX have len: "length dj = length u + length di"
    by simp
  show ?thesis
  proof (cases "u = []")
    case True
    with u show ?thesis by simp
  next
    case False
    from eq obtain us where us: "X = (Y @ [0x5F]) @ us \<and> us @ dj = di
        \<or> X @ us = Y @ [0x5F] \<and> dj = us @ di"
      unfolding append_eq_append_conv2 by blast
    then show ?thesis
    proof
      assume "X = (Y @ [0x5F]) @ us \<and> us @ dj = di"
      then have "length di = length us + length dj" by (metis length_append)
      with len False show ?thesis by simp
    next
      assume a: "X @ us = Y @ [0x5F] \<and> dj = us @ di"
      then have "length dj = length us + length di" by simp
      with len have "length us = length u" by simp
      with False have ne: "us \<noteq> []" by auto
      from a have "last (X @ us) = last (Y @ [0x5F])" by simp
      with ne have "last us = 0x5F" by simp
      with ne have "0x5F \<in> set us" by (metis last_in_set)
      with a have "(0x5F :: 16 word) \<in> set (num_to_string (int j))" by (simp add: dj_def)
      from num_to_string_units [OF this] show ?thesis by simp
    qed
  qed
qed

lemma sublist_unique_mark:
  assumes "sublist (p @ [a]) (n @ a # rest)" "a \<notin> set n" "a \<notin> set rest"
  shows "suffix p n"
proof -
  from assms(1) obtain pre post where "n @ a # rest = pre @ (p @ [a]) @ post"
    by (auto simp add: sublist_def)
  then have "n @ a # rest = (pre @ p) @ a # post" by simp
  with assms(2,3) have "n = pre @ p"
    using append_Cons_eq_iff [of a n rest "pre @ p" post] by blast
  then show ?thesis by (simp add: suffix_def)
qed

text \<open>
  The pattern of chunk \<open>i\<close> finds nothing in a list of entries of the store none of
  which belongs to the table of chunk \<open>i\<close>.
\<close>

lemma no_match_without_table:
  assumes "plain_name T"
    and "\<forall>nm \<in> set names. \<exists>n. n \<noteq> chunk_name T i \<and> store_entry T n nm"
  shows "regex_match (chunk_name T i) (join (str '', '') names) = None"
proof (rule ccontr)
  let ?P = "chunk_name T i @ [0x28]"
  assume "regex_match (chunk_name T i) (join (str '', '') names) \<noteq> None"
  then obtain r where "regex_scan ?P [] (join (str '', '') names) = Some r"
    by (auto simp add: regex_match_def)
  from regex_scan_sublist [OF this] have "sublist ?P (join (str '', '') names)" by simp
  moreover have "set ?P \<inter> set (str '', '') = {}"
    using chunk_name_units [OF assms(1), of _ i] by (auto simp add: str_def)
  ultimately obtain nm where nm: "nm \<in> set names" "sublist ?P nm"
    using sublist_join [of ?P "str '', ''" names] by (auto simp add: str_def)
  from assms(2) nm(1) obtain n where n: "n \<noteq> chunk_name T i" "store_entry T n nm" by blast
  from n(2) show False unfolding store_entry_def
  proof (elim disjE conjE exE)
    assume "nm = DB_SAVE"
    with nm(2) have "set ?P \<subseteq> set DB_SAVE" using set_mono_sublist by blast
    then have "0x28 \<in> set DB_SAVE" by simp
    then show False by (simp add: DB_SAVE_def str_def)
  next
    fix j enc
    assume j: "n = chunk_name T j" and e: "nm = n @ [0x28] @ enc @ [0x29]"
      and enc: "list_all (\<lambda>c. c = 0x30 \<or> c = 0x31 \<or> c = 0x20) enc"
    have a: "0x28 \<notin> set (chunk_name T j)"
      using chunk_name_units [OF assms(1), of "0x28" j] by auto
    have b: "0x28 \<notin> set (enc @ [0x29])" using enc by (auto simp add: list_all_iff)
    have c: "sublist (chunk_name T i @ [0x28]) (chunk_name T j @ 0x28 # (enc @ [0x29]))"
      using nm(2) e j by simp
    have "suffix (chunk_name T i) (chunk_name T j)" by (rule sublist_unique_mark [OF c a b])
    then have "i = j" by (rule chunk_name_suffix)
    with n(1) j show False by simp
  qed
qed

lemma fetch_loop_fails:
  assumes "int i \<le> SAVE_NAMES T w"
    and "\<forall>listing. listAllCounters w = Inr listing \<longrightarrow> regex_match (chunk_name T i) listing = None"
  shows "j \<le> i \<Longrightarrow> \<exists>e. fetch_loop T w j mem = Inl e"
proof (induction "i - j" arbitrary: j mem)
  case 0
  then have "j = i" by simp
  with assms show ?case
    by (simp add: fetch_loop.simps [of T w i mem] split: sum.splits)
next
  case (Suc k)
  then have le: "int j \<le> SAVE_NAMES T w" using assms(1) by simp
  show ?case
  proof (cases "listAllCounters w")
    case (Inl e)
    with le show ?thesis by (simp add: fetch_loop.simps [of T w j mem])
  next
    case (Inr listing)
    show ?thesis
    proof (cases "regex_match (chunk_name T j) listing")
      case None
      with le Inr show ?thesis by (simp add: fetch_loop.simps [of T w j mem])
    next
      case (Some raw)
      have "k = i - Suc j" "Suc j \<le> i" using Suc.hyps(2) by simp_all
      from Suc.hyps(1) [OF this] obtain e
        where "fetch_loop T w (Suc j) (mem @ [(j, raw)]) = Inl e" by blast
      with le Inr Some show ?thesis by (simp add: fetch_loop.simps [of T w j mem])
    qed
  qed
qed

lemma listing_names:
  assumes "listAllCounters w = Inr listing"
  shows "\<exists>names. listing = join (str '', '') names
           \<and> (\<forall>nm \<in> set names. \<exists>t \<in> set w. nm \<in> fst ` set (snd t))"
proof -
  let ?names = "remdups (concat (map (\<lambda>t. map fst (snd t)) w))"
  from assms have "listing = join (str '', '') ?names"
    by (simp add: listAllCounters_def Let_def split: if_splits)
  moreover have "\<forall>nm \<in> set ?names. \<exists>t \<in> set w. nm \<in> fst ` set (snd t)" by auto
  ultimately show ?thesis by blast
qed

lemma SAVE_NAMES_build:
  assumes "testCounter T DB_SAVE w = Inr x"
  shows "SAVE_NAMES T (build T w) = x"
proof -
  from assms obtain es where es: "map_of w T = Some es" "map_of es DB_SAVE = Some x"
    by (auto simp add: testCounter_map_of split: option.splits)
  let ?w1 = "runCommand (createTable T) w"
  have "has_table T w" using es(1) by (simp add: has_table_map_of)
  then have w1: "map_of ?w1 T = Some es" using es(1) by (simp add: map_of_createTable)
  from addCounter_setCounter [OF w1, of DB_SAVE 0] es(2)
  have "build T w = runCommand (setCounter T DB_SAVE x) ?w1" by (simp add: build_def)
  then show ?thesis by (simp add: SAVE_NAMES_map_of map_of_setCounter w1 map_of_put_entry)
qed

lemma testCounter_dropTable_chunk:
  "testCounter T e (runCommand (dropTable (chunk_name T i)) w) = testCounter T e w"
  by (simp add: testCounter_map_of map_of_dropTable)

text \<open>What the cache decodes to after \<open>save\<close>: the chunks of the split, joined.\<close>

lemma decode_saved_chunks:
  assumes "chunkString text MAX_DATABASE_STRING_SIZE = Inr (Some chunks)"
  shows "concat (map (\<lambda>a. binaryToText (snd a))
           (zip [0 ..< length chunks] (map textToBinary chunks))) = concat chunks"
proof -
  from assms have "chunks = regex_matches MAX_DATABASE_STRING_SIZE text"
    by (auto simp add: chunkString_def split: if_splits list.splits)
  then have ne: "\<forall>c \<in> set chunks. c \<noteq> []" using regex_matches_pieces_not_Nil by blast
  have "map (\<lambda>a. binaryToText (snd a)) (zip [0 ..< length chunks] (map textToBinary chunks))
        = map binaryToText (map snd (zip [0 ..< length chunks] (map textToBinary chunks)))"
    by (simp only: map_map o_def)
  also have "map snd (zip [0 ..< length chunks] (map textToBinary chunks)) = map textToBinary chunks"
    by (rule map_snd_zip) simp
  also have "map binaryToText (map textToBinary chunks) = chunks"
    using ne by (simp add: binaryToText_textToBinary map_idI)
  finally show ?thesis by simp
qed

section \<open>The chunk tables after save, set, delete and clear\<close>

lemma data_cases: "data db = Inl Unmodelled \<or> (\<exists>d. data db = Inr d)"
  by (simp add: data_def parse_or_empty_def split: sum.splits)





section \<open>The read path\<close>




section \<open>The read after a chunk table was dropped\<close>






section \<open>What holds beside the defects\<close>

lemma regex_matches_lengths:
  assumes "1 \<le> n"
  shows "\<forall>c \<in> set s. \<not> is_LineTerminator c \<Longrightarrow> s \<noteq> [] \<Longrightarrow>
         regex_matches n s \<noteq> []
         \<and> (\<forall>p \<in> set (butlast (regex_matches n s)). length p = nat n)
         \<and> 1 \<le> length (last (regex_matches n s))
         \<and> length (last (regex_matches n s)) \<le> nat n"
proof (induction "length s" arbitrary: s rule: less_induct)
  case less
  let ?rest = "drop (nat n) s"
  have step: "regex_matches n s = take (nat n) s # regex_matches n ?rest"
    using assms less.prems(2) less.prems(1) by (rule regex_matches_no_LT_step)
  show ?case
  proof (cases "?rest = []")
    case True
    then have "regex_matches n s = [take (nat n) s]" by (simp add: step regex_matches_Nil)
    moreover have "1 \<le> length (take (nat n) s)" using assms less.prems(2) by (cases s) auto
    ultimately show ?thesis by simp
  next
    case False
    then have full: "length (take (nat n) s) = nat n" by simp
    have "length ?rest < length s" using less.prems(2) assms by simp
    moreover have "\<forall>c \<in> set ?rest. \<not> is_LineTerminator c"
      using less.prems(1) by (meson in_set_dropD)
    ultimately have IH: "regex_matches n ?rest \<noteq> []
         \<and> (\<forall>p \<in> set (butlast (regex_matches n ?rest)). length p = nat n)
         \<and> 1 \<le> length (last (regex_matches n ?rest))
         \<and> length (last (regex_matches n ?rest)) \<le> nat n"
      using False by (rule less.hyps)
    with full show ?thesis by (simp add: step)
  qed
qed

text \<open>
  On a non-empty text without line terminators \<open>chunkString\<close> slices as the spec says:
  the pieces concatenate to the text, each piece but the last has length \<open>maxLen\<close>,
  and the last has between 1 and \<open>maxLen\<close> code units.
\<close>

theorem chunkString_without_line_terminators:
  assumes "1 \<le> n" "s \<noteq> []" "list_all (\<lambda>c. \<not> is_LineTerminator c) s"
  shows "\<exists>pieces. chunkString s n = Inr (Some pieces)
           \<and> concat pieces = s
           \<and> list_all (\<lambda>p. length p = nat n) (butlast pieces)
           \<and> 1 \<le> length (last pieces) \<and> length (last pieces) \<le> nat n"
proof -
  have free: "\<forall>c \<in> set s. \<not> is_LineTerminator c" using assms(3) by (simp add: list_all_iff)
  from regex_matches_lengths [OF assms(1) free assms(2)]
  have l: "regex_matches n s \<noteq> []"
    "\<forall>p \<in> set (butlast (regex_matches n s)). length p = nat n"
    "1 \<le> length (last (regex_matches n s))" "length (last (regex_matches n s)) \<le> nat n"
    by simp_all
  have "chunkString s n = Inr (Some (regex_matches n s))"
    using l(1) assms(1) by (cases "regex_matches n s") (auto simp add: chunkString_def)
  with l concat_regex_matches [OF assms(1) free] show ?thesis
    by (simp add: list_all_iff)
qed

theorem chunkString_without_line_terminators_witness:
  "(1::int) \<le> 2 \<and> str ''abc'' \<noteq> [] \<and> list_all (\<lambda>c. \<not> is_LineTerminator c) (str ''abc'')
   \<and> (\<exists>pieces. chunkString (str ''abc'') 2 = Inr (Some pieces)
           \<and> concat pieces = str ''abc''
           \<and> list_all (\<lambda>p. length p = nat 2) (butlast pieces)
           \<and> 1 \<le> length (last pieces) \<and> length (last pieces) \<le> nat 2)"
proof -
  have h: "(1::int) \<le> 2" "str ''abc'' \<noteq> []"
    "list_all (\<lambda>c. \<not> is_LineTerminator c) (str ''abc'')"
    by (simp_all add: str_def is_LineTerminator_def)
  from chunkString_without_line_terminators [OF h] h show ?thesis by simp
qed

text \<open>
  A round trip through the store: when the serialization of \<open>d\<close> has no line
  terminator (\<open>JSON.stringify\<close> escapes line feed and carriage return, so this is about
  \<open>U+2028\<close> and \<open>U+2029\<close>), the read after \<open>save(d)\<close> returns what \<open>JSON.parse\<close>
  makes of \<open>JSON.stringify(d)\<close>, or \<open>{}\<close> where that raises.
\<close>

theorem save_then_read:
  assumes "list_all (\<lambda>c. \<not> is_LineTerminator c) (JSON_stringify d)"
  shows "fst (save d (db, w)) = Inr ()
         \<and> data (fst (snd (save d (db, w)))) = parse_or_empty (JSON_stringify d)"
proof -
  have free: "\<forall>c \<in> set (JSON_stringify d). \<not> is_LineTerminator c"
    using assms by (simp add: list_all_iff)
  obtain chunk rest
    where c: "chunkString (JSON_stringify d) MAX_DATABASE_STRING_SIZE = Inr (Some (chunk # rest))"
    using chunkString_JSON_stringify by blast
  then have "chunk # rest = regex_matches MAX_DATABASE_STRING_SIZE (JSON_stringify d)"
    by (auto simp add: chunkString_def split: if_splits list.splits)
  with concat_regex_matches [OF _ free, of MAX_DATABASE_STRING_SIZE]
  have cat: "concat (chunk # rest) = JSON_stringify d"
    by (simp add: MAX_DATABASE_STRING_SIZE_def)
  from save_serialized_result [OF c, of db w]
  obtain db' w' where r: "save d (db, w) = (Inr (), db', w')"
    and mem: "MEMORY db' = zip [0 ..< length (chunk # rest)] (map textToBinary (chunk # rest))"
    by (auto simp add: save_def)
  from decode_saved_chunks [OF c] cat
  have "concat (map (\<lambda>a. binaryToText (snd a)) (MEMORY db')) = JSON_stringify d"
    by (simp only: mem)
  with r show ?thesis by (simp add: data_def)
qed

theorem save_then_read_witness:
  "list_all (\<lambda>c. \<not> is_LineTerminator c) (JSON_stringify (JObj [(str ''a'', JNum 1)]))
   \<and> data (fst (snd (save (JObj [(str ''a'', JNum 1)]) (new_Database (str ''T'') []))))
     = Inr (JObj [(str ''a'', JNum 1)])"
proof -
  let ?d = "JObj [(str ''a'', JNum 1)]"
  let ?s0 = "new_Database (str ''T'') []"
  have h: "list_all (\<lambda>c. \<not> is_LineTerminator c) (JSON_stringify ?d)" by code_simp
  have p: "parse_or_empty (JSON_stringify ?d) = Inr ?d" by code_simp
  from save_then_read [OF h, of "fst ?s0" "snd ?s0"] p h show ?thesis by simp
qed

text \<open>
  The chunk boundary on a text without line terminators: 32000 code units make one
  chunk, 32001 make two, the second of length 1.
\<close>

theorem chunk_boundary_without_line_terminators:
  assumes "list_all (\<lambda>c. \<not> is_LineTerminator c) s"
  shows "(length s = 32000 \<longrightarrow> chunkString s MAX_DATABASE_STRING_SIZE = Inr (Some [s]))
         \<and> (length s = 32001 \<longrightarrow>
              chunkString s MAX_DATABASE_STRING_SIZE = Inr (Some [take 32000 s, drop 32000 s])
              \<and> length (drop 32000 s) = 1)"
proof (intro conjI impI)
  have free: "\<forall>c \<in> set s. \<not> is_LineTerminator c" using assms by (simp add: list_all_iff)
  have N: "1 \<le> MAX_DATABASE_STRING_SIZE" "nat MAX_DATABASE_STRING_SIZE = 32000"
    by (simp_all add: MAX_DATABASE_STRING_SIZE_def)
  {
    assume len: "length s = 32000"
    then have ne: "s \<noteq> []" by auto
    from regex_matches_no_LT_step [OF N(1) ne free] len
    have "regex_matches MAX_DATABASE_STRING_SIZE s = [s]"
      by (simp add: N(2) regex_matches_Nil)
    then show "chunkString s MAX_DATABASE_STRING_SIZE = Inr (Some [s])"
      by (simp add: chunkString_def MAX_DATABASE_STRING_SIZE_def)
  }
  {
    assume len: "length s = 32001"
    then have ne: "s \<noteq> []" by auto
    let ?r = "drop 32000 s"
    have r: "length ?r = 1" using len by simp
    then have rne: "?r \<noteq> []" by auto
    have rfree: "\<forall>c \<in> set ?r. \<not> is_LineTerminator c" using free by (meson in_set_dropD)
    from regex_matches_no_LT_step [OF N(1) rne rfree] r
    have "regex_matches MAX_DATABASE_STRING_SIZE ?r = [?r]"
      by (simp add: N(2) regex_matches_Nil)
    with regex_matches_no_LT_step [OF N(1) ne free]
    have "regex_matches MAX_DATABASE_STRING_SIZE s = [take 32000 s, ?r]"
      by (simp add: N(2))
    then show "chunkString s MAX_DATABASE_STRING_SIZE = Inr (Some [take 32000 s, drop 32000 s])"
      by (simp add: chunkString_def MAX_DATABASE_STRING_SIZE_def)
    show "length (drop 32000 s) = 1" by (rule r)
  }
qed

theorem chunk_boundary_without_line_terminators_witness:
  "list_all (\<lambda>c. \<not> is_LineTerminator c) (replicate 32001 (0x78 :: 16 word))
   \<and> length (replicate 32001 (0x78 :: 16 word)) = 32001
   \<and> chunkString (replicate 32001 0x78) MAX_DATABASE_STRING_SIZE
     = Inr (Some [take 32000 (replicate 32001 0x78), drop 32000 (replicate 32001 0x78)])
   \<and> length (drop 32000 (replicate 32001 (0x78 :: 16 word))) = 1"
proof -
  define s :: jstring where "s = replicate 32001 0x78"
  have h: "list_all (\<lambda>c. \<not> is_LineTerminator c) s"
    by (simp add: s_def list_all_iff is_LineTerminator_def)
  have len: "length s = 32001" by (simp add: s_def)
  from chunk_boundary_without_line_terminators [OF h, THEN conjunct2, rule_format, OF len] h len
  show ?thesis unfolding s_def by blast
qed

text \<open>
  A store constructed after a chunk table was dropped: given a plain table name and a
  backing system that holds only entries of this store, the loop of \<open>fetch\<close> finds
  no entry for the dropped table, raises inside its \<open>try\<close>, and the new store reads
  \<open>{}\<close>.
\<close>

theorem new_store_after_dropped_table:
  assumes "plain_name T" "only_store T w" "TABLE_NAME db = T"
    and "chunkString (JSON_stringify d) MAX_DATABASE_STRING_SIZE = Inr (Some chunks)"
    and "i < length chunks"
  shows "data (fst (new_Database T
                 (runCommand (dropTable (chunk_name T i)) (snd (snd (save d (db, w)))))))
           = Inr (JObj [])"
proof -
  from save_serialized_result [OF assms(4), of db w]
  obtain db1 w1 where r: "save d (db, w) = (Inr (), db1, w1)"
    and mem: "MEMORY db1 = zip [0 ..< length chunks] (map textToBinary chunks)"
    and rec: "testCounter T DB_SAVE w1 = Inr (int (length chunks) - 1)"
    using assms(3) by (auto simp add: save_def)
  let ?w2 = "runCommand (dropTable (chunk_name T i)) w1"
  let ?w3 = "build T ?w2"
  have "only_store T w1" using only_store_save [of db w d] assms(2,3) r by simp
  then have only: "only_store T ?w3" by (simp add: only_store_build only_store_dropTable)
  have no_table: "\<not> has_table (chunk_name T i) ?w3" by simp
  have "SAVE_NAMES T ?w3 = int (length chunks) - 1"
    by (rule SAVE_NAMES_build) (simp add: testCounter_dropTable_chunk rec)
  with assms(5) have le: "int i \<le> SAVE_NAMES T ?w3" by simp
  have none: "\<forall>listing. listAllCounters ?w3 = Inr listing \<longrightarrow>
                regex_match (chunk_name T i) listing = None"
  proof (intro allI impI)
    fix listing
    assume "listAllCounters ?w3 = Inr listing"
    from listing_names [OF this] obtain names
      where l: "listing = join (str '', '') names"
        and n: "\<forall>nm \<in> set names. \<exists>t \<in> set ?w3. nm \<in> fst ` set (snd t)"
      by blast
    have "\<exists>n. n \<noteq> chunk_name T i \<and> store_entry T n nm" if "nm \<in> set names" for nm
    proof -
      from n that obtain t e where t: "t \<in> set ?w3" "e \<in> set (snd t)" "nm = fst e" by auto
      with only have "store_entry T (fst t) nm" unfolding only_store_def by blast
      moreover have "fst t \<noteq> chunk_name T i"
      proof
        assume "fst t = chunk_name T i"
        with t(1) have "has_table (chunk_name T i) ?w3"
          unfolding has_table_def by (metis imageI)
        with no_table show False by simp
      qed
      ultimately show ?thesis by blast
    qed
    then show "regex_match (chunk_name T i) listing = None"
      unfolding l by (intro no_match_without_table [OF assms(1)]) blast
  qed
  from fetch_loop_fails [OF le none, of 0 "[]"] obtain e
    where "fetch_loop T ?w3 0 [] = Inl e" by auto
  then have "MEMORY (fst (new_Database T ?w2)) = fallback"
    by (simp add: new_Database_def fetch_def Let_def)
  then show "data (fst (new_Database T
                 (runCommand (dropTable (chunk_name T i)) (snd (snd (save d (db, w)))))))
           = Inr (JObj [])"
    using r by (simp add: data_def parse_or_empty_def fallback_decodes)
qed

theorem new_store_after_dropped_table_witness:
  "plain_name (str ''T'')
   \<and> only_store (str ''T'') (snd (new_Database (str ''T'') []))
   \<and> TABLE_NAME (fst (new_Database (str ''T'') [])) = str ''T''
   \<and> chunkString (JSON_stringify (JObj [(str ''a'', JNum 1)])) MAX_DATABASE_STRING_SIZE
     = Inr (Some [JSON_stringify (JObj [(str ''a'', JNum 1)])])
   \<and> (0::nat) < length [JSON_stringify (JObj [(str ''a'', JNum 1)])]
   \<and> data (fst (new_Database (str ''T'')
        (runCommand (dropTable (chunk_name (str ''T'') 0))
           (snd (snd (save (JObj [(str ''a'', JNum 1)]) (new_Database (str ''T'') [])))))))
     = Inr (JObj [])"
proof -
  let ?T = "str ''T''"
  let ?d = "JObj [(str ''a'', JNum 1)]"
  let ?s0 = "new_Database ?T []"
  have s0: "?s0 = (\<lparr>TABLE_NAME = ?T, MEMORY = fallback\<rparr>, [(?T, [(DB_SAVE, 0)])])"
    by code_simp
  have plain: "plain_name ?T" by code_simp
  have only: "only_store ?T (snd ?s0)" by (simp add: s0 only_store_def store_entry_def)
  have name: "TABLE_NAME (fst ?s0) = ?T" by (simp add: s0)
  have chunks: "chunkString (JSON_stringify ?d) MAX_DATABASE_STRING_SIZE
                = Inr (Some [JSON_stringify ?d])"
    by code_simp
  from new_store_after_dropped_table [OF plain only name chunks, of 0]
  have "data (fst (new_Database ?T
          (runCommand (dropTable (chunk_name ?T 0)) (snd (snd (save ?d (fst ?s0, snd ?s0)))))))
        = Inr (JObj [])"
    by simp
  with plain only name chunks show ?thesis by simp
qed

text \<open>
  No document is serialized to the empty text: for every document the serialized text
  splits into at least one chunk, \<open>save\<close> completes, and the cache holds the
  encoding of each chunk of the split, in order.
\<close>

theorem save_caches_every_chunk:
  "JSON_stringify d \<noteq> []
   \<and> (\<exists>chunk rest.
         chunkString (JSON_stringify d) MAX_DATABASE_STRING_SIZE = Inr (Some (chunk # rest))
         \<and> fst (save d (db, w)) = Inr ()
         \<and> map snd (MEMORY (fst (snd (save d (db, w))))) = map textToBinary (chunk # rest))"
proof (intro conjI)
  show "JSON_stringify d \<noteq> []" using JSON_stringify_head [of d] by auto
  obtain chunk rest
    where c: "chunkString (JSON_stringify d) MAX_DATABASE_STRING_SIZE = Inr (Some (chunk # rest))"
    using chunkString_JSON_stringify by blast
  from save_serialized_result [OF c, of db w]
  obtain db' w' where r: "save d (db, w) = (Inr (), db', w')"
    and mem: "MEMORY db' = zip [0 ..< length (chunk # rest)] (map textToBinary (chunk # rest))"
    by (auto simp add: save_def)
  have "map snd (MEMORY db') = map textToBinary (chunk # rest)"
    unfolding mem by (rule map_snd_zip) simp
  with c r show "\<exists>chunk rest.
         chunkString (JSON_stringify d) MAX_DATABASE_STRING_SIZE = Inr (Some (chunk # rest))
         \<and> fst (save d (db, w)) = Inr ()
         \<and> map snd (MEMORY (fst (snd (save d (db, w))))) = map textToBinary (chunk # rest)"
    by auto
qed

end
